theory Spec2Isabelle
  imports Main
begin

section \<open>Strings of UTF-16 code units\<close>

text \<open>
  A JavaScript string is a sequence of 16-bit code units, and a regular expression
  without the \<open>u\<close> flag matches code unit by code unit. A code unit is modelled by its
  number; a string is the list of its code units. \<open>str\<close> reads an ASCII literal.
\<close>

type_synonym jsstring = "nat list"

definition str :: "string \<Rightarrow> jsstring" where
  "str s = map of_char s"

definition is_space :: "nat \<Rightarrow> bool" where
  \<comment> \<open>WhiteSpace and LineTerminator of ECMAScript: what \<open>\\s\<close> matches and \<open>trim\<close> removes.\<close>
  "is_space c = (c = 9 \<or> c = 10 \<or> c = 11 \<or> c = 12 \<or> c = 13 \<or> c = 32 \<or> c = 160
     \<or> c = 5760 \<or> (8192 \<le> c \<and> c \<le> 8202) \<or> c = 8232 \<or> c = 8233 \<or> c = 8239
     \<or> c = 8287 \<or> c = 12288 \<or> c = 65279)"

definition is_line_terminator :: "nat \<Rightarrow> bool" where
  "is_line_terminator c = (c = 10 \<or> c = 13 \<or> c = 8232 \<or> c = 8233)"

definition is_digit :: "nat \<Rightarrow> bool" where
  "is_digit c = (48 \<le> c \<and> c \<le> 57)"

definition is_alnum :: "nat \<Rightarrow> bool" where
  \<comment> \<open>the class \<open>[a-zA-Z0-9]\<close>\<close>
  "is_alnum c = ((48 \<le> c \<and> c \<le> 57) \<or> (65 \<le> c \<and> c \<le> 90) \<or> (97 \<le> c \<and> c \<le> 122))"

definition to_upper :: "nat \<Rightarrow> nat" where
  "to_upper c = (if 97 \<le> c \<and> c \<le> 122 then c - 32 else c)"

definition to_lower :: "nat \<Rightarrow> nat" where
  "to_lower c = (if 65 \<le> c \<and> c \<le> 90 then c + 32 else c)"

section \<open>Regular expressions\<close>

text \<open>
  The patterns of \<open>extractDetails\<close> are built from literal characters, \<open>.\<close>, character
  classes, quantifiers on single-character atoms, an optional non-capturing group, an
  alternation and one capturing group. The matcher follows the backtracking semantics
  of ECMAScript (a matcher takes the rest of the input, the captures and a
  continuation), so greedy and lazy quantifiers try their alternatives in the order
  the language prescribes.
\<close>

datatype citem =
    CChar nat        \<comment> \<open>one character\<close>
  | CRange nat nat   \<comment> \<open>\<open>a-b\<close>\<close>
  | CSpace           \<comment> \<open>\<open>\\s\<close>\<close>
  | CNonSpace        \<comment> \<open>\<open>\\S\<close>\<close>
  | CDigit           \<comment> \<open>\<open>\\d\<close>\<close>

datatype atom =
    AChar nat            \<comment> \<open>a pattern character\<close>
  | ADot                 \<comment> \<open>\<open>.\<close>\<close>
  | AClass "citem list"  \<comment> \<open>\<open>[...]\<close>, and \<open>\\s\<close>, \<open>\\d\<close> as one-item classes\<close>

datatype regex =
    Empty
  | Atom atom
  | Quant atom nat "nat option" bool  \<comment> \<open>atom, min, max (None: unbounded), greedy\<close>
  | Seq regex regex
  | Alt regex regex
  | Opt regex                         \<comment> \<open>\<open>(?:r)?\<close>, greedy\<close>
  | Group nat regex                   \<comment> \<open>capturing group number n\<close>

definition canonicalize :: "bool \<Rightarrow> nat \<Rightarrow> nat" where
  \<comment> \<open>Canonicalize of ECMAScript without the \<open>u\<close> flag, on ASCII. A code unit from 128 on
      never canonicalizes to one below 128, and every pattern character here is ASCII,
      so the images of the other code units do not matter: they are left in place.\<close>
  "canonicalize ic c = (if ic then to_upper c else c)"

definition in_range :: "bool \<Rightarrow> nat \<Rightarrow> nat \<Rightarrow> nat \<Rightarrow> bool" where
  \<comment> \<open>some member of \<open>lo-hi\<close> has the canonical form of \<open>c\<close>\<close>
  "in_range ic lo hi c =
     ((lo \<le> c \<and> c \<le> hi)
      \<or> (ic \<and> ((lo \<le> to_upper c \<and> to_upper c \<le> hi) \<or> (lo \<le> to_lower c \<and> to_lower c \<le> hi))))"

fun citem_match :: "bool \<Rightarrow> citem \<Rightarrow> nat \<Rightarrow> bool" where
  "citem_match ic (CChar a) c = (canonicalize ic a = canonicalize ic c)"
| "citem_match ic (CRange lo hi) c = in_range ic lo hi c"
| "citem_match ic CSpace c = is_space c"
| "citem_match ic CNonSpace c = (\<not> is_space c)"
| "citem_match ic CDigit c = is_digit c"

fun atom_match :: "bool \<Rightarrow> atom \<Rightarrow> nat \<Rightarrow> bool" where
  "atom_match ic (AChar a) c = (canonicalize ic a = canonicalize ic c)"
| "atom_match ic ADot c = (\<not> is_line_terminator c)"
| "atom_match ic (AClass items) c = list_ex (\<lambda>i. citem_match ic i c) items"

definition dec_max :: "nat option \<Rightarrow> nat option" where
  "dec_max mx = map_option (\<lambda>n. n - 1) mx"

fun rep :: "bool \<Rightarrow> (nat \<Rightarrow> bool) \<Rightarrow> nat \<Rightarrow> nat option \<Rightarrow> jsstring
            \<Rightarrow> (jsstring \<Rightarrow> 'r option) \<Rightarrow> 'r option" where
  \<comment> \<open>RepeatMatcher on a one-character atom \<open>p\<close>: the minimum first; then a greedy
      quantifier tries one more character before the continuation, a lazy one the
      continuation before one more character.\<close>
  "rep g p mn mx [] k = (if mx = Some 0 then k [] else if mn \<noteq> 0 then None else k [])"
| "rep g p mn mx (x # xs) k =
     (if mx = Some 0 then k (x # xs)
      else if mn \<noteq> 0 then (if p x then rep g p (mn - 1) (dec_max mx) xs k else None)
      else if g then
        (case (if p x then rep g p 0 (dec_max mx) xs k else None) of
           Some z \<Rightarrow> Some z
         | None \<Rightarrow> k (x # xs))
      else
        (case k (x # xs) of
           Some z \<Rightarrow> Some z
         | None \<Rightarrow> (if p x then rep g p 0 (dec_max mx) xs k else None)))"

type_synonym captures = "nat \<Rightarrow> jsstring option"

primrec m :: "regex \<Rightarrow> bool \<Rightarrow> jsstring \<Rightarrow> captures
              \<Rightarrow> (jsstring \<Rightarrow> captures \<Rightarrow> 'r option) \<Rightarrow> 'r option" where
  \<comment> \<open>\<open>m r ic s c k\<close>: match \<open>r\<close> at the front of \<open>s\<close> (the rest of the input) and hand
      what is left to the continuation; \<open>None\<close> is failure.\<close>
  "m Empty ic s c k = k s c"
| "m (Atom a) ic s c k =
     (case s of [] \<Rightarrow> None | x # xs \<Rightarrow> if atom_match ic a x then k xs c else None)"
| "m (Quant a mn mx g) ic s c k = rep g (atom_match ic a) mn mx s (\<lambda>s'. k s' c)"
| "m (Seq r1 r2) ic s c k = m r1 ic s c (\<lambda>s' c'. m r2 ic s' c' k)"
| "m (Alt r1 r2) ic s c k =
     (case m r1 ic s c k of Some z \<Rightarrow> Some z | None \<Rightarrow> m r2 ic s c k)"
| "m (Opt r) ic s c k =
     (case m r ic s c (\<lambda>s' c'. if length s' = length s then None else k s' c') of
        Some z \<Rightarrow> Some z
      | None \<Rightarrow> k s c)"
| "m (Group n r) ic s c k =
     m r ic s c (\<lambda>s' c'. k s' (c'(n := Some (take (length s - length s') s))))"

definition accept :: "jsstring \<Rightarrow> jsstring \<Rightarrow> captures \<Rightarrow> captures option" where
  \<comment> \<open>the final continuation: the match array, element 0 the matched substring\<close>
  "accept s s' c = Some (c(0 := Some (take (length s - length s') s)))"

definition match_at :: "regex \<Rightarrow> bool \<Rightarrow> jsstring \<Rightarrow> captures option" where
  "match_at r ic s = m r ic s (\<lambda>_. None) (accept s)"

fun regexp_exec :: "regex \<Rightarrow> bool \<Rightarrow> jsstring \<Rightarrow> captures option" where
  \<comment> \<open>RegExpBuiltinExec without the \<open>g\<close> and \<open>y\<close> flags: the first start index, from 0 to
      the length of the input, at which the pattern matches.\<close>
  "regexp_exec r ic [] = match_at r ic []"
| "regexp_exec r ic (x # xs) =
     (case match_at r ic (x # xs) of Some a \<Rightarrow> Some a | None \<Rightarrow> regexp_exec r ic xs)"

section \<open>The patterns of extractDetails\<close>

fun lit :: "string \<Rightarrow> regex" where
  "lit [] = Empty"
| "lit [x] = Atom (AChar (of_char x))"
| "lit (x # xs) = Seq (Atom (AChar (of_char x))) (lit xs)"

fun cat :: "regex list \<Rightarrow> regex" where
  "cat [] = Empty"
| "cat [r] = r"
| "cat (r # rs) = Seq r (cat rs)"

definition ws :: regex where
  \<comment> \<open>\<open>\\s*\<close>\<close>
  "ws = Quant (AClass [CSpace]) 0 None True"

definition gap :: regex where
  \<comment> \<open>\<open>[\\s\\S]*?\<close>\<close>
  "gap = Quant (AClass [CSpace, CNonSpace]) 0 None False"

definition dot_gap :: regex where
  \<comment> \<open>\<open>.*?\<close>\<close>
  "dot_gap = Quant ADot 0 None False"

definition sep :: regex where
  \<comment> \<open>\<open>[:\\-]?\<close>\<close>
  "sep = Quant (AClass [CChar 58, CChar 45]) 0 (Some 1) True"

definition the_opt :: regex where
  \<comment> \<open>\<open>(?:the\\s*)?\<close>\<close>
  "the_opt = Opt (cat [lit ''the'', ws])"

definition id10 :: regex where
  \<comment> \<open>\<open>([A-Z0-9]{10})\<close>\<close>
  "id10 = Group 1 (Quant (AClass [CRange 65 90, CRange 48 57]) 10 (Some 10) True)"

definition currencyRegex_source :: regex where
  \<comment> \<open>\<open>([\\d,]+\\.\\d{2})\<close>\<close>
  "currencyRegex_source =
     Group 1 (cat [Quant (AClass [CDigit, CChar 44]) 1 None True,
                   Atom (AChar 46),
                   Quant (AClass [CDigit]) 2 (Some 2) True])"

text \<open>The label of each rule: the pattern up to the separator, the gap or the anchor.\<close>

definition lbl_employerName :: "regex list" where
  "lbl_employerName = [lit ''Name'', ws, lit ''of'', ws, the_opt, lit ''Employer'']"

definition lbl_TAN :: "regex list" where
  "lbl_TAN = [lit ''TAN'']"

definition lbl_employerPAN :: "regex list" where
  "lbl_employerPAN = [lit ''PAN'', ws, lit ''of'', ws, the_opt, lit ''Deductor'']"

definition lbl_employeeName :: "regex list" where
  "lbl_employeeName = [lit ''Name'', ws, lit ''of'', ws, the_opt, lit ''Employee'']"

definition lbl_employeePAN :: "regex list" where
  "lbl_employeePAN = [lit ''PAN'', ws, lit ''of'', ws, the_opt, lit ''Employee'']"

definition lbl_assessmentYear :: "regex list" where
  "lbl_assessmentYear = [lit ''Assessment'', ws, lit ''Year'']"

definition lbl_grossSalary :: "regex list" where
  "lbl_grossSalary = [lit ''Gross'', ws, lit ''Salary'']"

definition lbl_standardDeduction :: "regex list" where
  "lbl_standardDeduction =
     [lit ''Standard'', ws, lit ''Deduction'', dot_gap, lit ''u/s'', ws, lit ''16(ia)'']"

definition lbl_professionalTax :: "regex list" where
  "lbl_professionalTax =
     [Alt (cat [lit ''Tax'', ws, lit ''on'', ws, lit ''employment''])
          (cat [lit ''Professional'', ws, lit ''Tax'']),
      dot_gap, lit ''u/s'', ws, lit ''16(iii)'']"

definition lbl_incomeChargeable :: "regex list" where
  "lbl_incomeChargeable =
     [lit ''Income'', ws, lit ''chargeable'', ws, lit ''under'', ws, lit ''the'', ws,
      lit ''head'', ws, Atom (AChar 39), lit ''Salaries'', Atom (AChar 39)]"

definition lbl_totalDeductionsVIA :: "regex list" where
  "lbl_totalDeductionsVIA =
     [lit ''Aggregate'', ws, lit ''of'', ws, lit ''deductible'', ws, lit ''amount'', ws,
      lit ''under'', ws, lit ''Chapter'', ws, lit ''VI-A'']"

definition lbl_totalTaxableIncome :: "regex list" where
  "lbl_totalTaxableIncome = [lit ''Total'', ws, lit ''Taxable'', ws, lit ''Income'']"

definition lbl_taxOnTotalIncome :: "regex list" where
  "lbl_taxOnTotalIncome = [lit ''Tax'', ws, lit ''on'', ws, lit ''total'', ws, lit ''income'']"

definition lbl_cess :: "regex list" where
  "lbl_cess = [lit ''Health'', ws, lit ''and'', ws, lit ''Education'', ws, lit ''Cess'']"

definition lbl_totalTDS :: "regex list" where
  "lbl_totalTDS =
     [lit ''Total'', ws, lit ''Tax'', ws, lit ''Deducted'',
      Opt (cat [ws, lit ''at'', ws, lit ''Source''])]"

text \<open>The fifteen patterns, each the label followed by the rest of the source's pattern.\<close>

definition re_employerName :: regex where
  \<comment> \<open>\<open>/Name\\s*of\\s*(?:the\\s*)?Employer[\\s\\S]*?TAN/i\<close>\<close>
  "re_employerName = cat (lbl_employerName @ [gap, lit ''TAN''])"

definition re_TAN :: regex where
  \<comment> \<open>\<open>/TAN\\s*[:\\-]?\\s*([A-Z0-9]{10})/i\<close>\<close>
  "re_TAN = cat (lbl_TAN @ [ws, sep, ws, id10])"

definition re_employerPAN :: regex where
  \<comment> \<open>\<open>/PAN\\s*of\\s*(?:the\\s*)?Deductor\\s*[:\\-]?\\s*([A-Z0-9]{10})/i\<close>\<close>
  "re_employerPAN = cat (lbl_employerPAN @ [ws, sep, ws, id10])"

definition re_employeeName :: regex where
  \<comment> \<open>\<open>/Name\\s*of\\s*(?:the\\s*)?Employee[\\s\\S]*?PAN/i\<close>\<close>
  "re_employeeName = cat (lbl_employeeName @ [gap, lit ''PAN''])"

definition re_employeePAN :: regex where
  \<comment> \<open>\<open>/PAN\\s*of\\s*(?:the\\s*)?Employee\\s*[:\\-]?\\s*([A-Z0-9]{10})/i\<close>\<close>
  "re_employeePAN = cat (lbl_employeePAN @ [ws, sep, ws, id10])"

definition re_assessmentYear :: regex where
  \<comment> \<open>\<open>/Assessment\\s*Year\\s*[:\\-]?\\s*(\\d{4}-\\d{2,4})/i\<close>\<close>
  "re_assessmentYear =
     cat (lbl_assessmentYear @
          [ws, sep, ws,
           Group 1 (cat [Quant (AClass [CDigit]) 4 (Some 4) True,
                         Atom (AChar 45),
                         Quant (AClass [CDigit]) 2 (Some 4) True])])"

definition monetary :: "regex list \<Rightarrow> regex" where
  \<comment> \<open>\<open>new RegExp("<label>[\\s\\S]*?" + currencyRegex.source, "i")\<close>\<close>
  "monetary lbl = cat (lbl @ [gap, currencyRegex_source])"

section \<open>extractDetails\<close>

definition trim :: "jsstring \<Rightarrow> jsstring" where
  "trim s = rev (dropWhile is_space (rev (dropWhile is_space s)))"

definition strip_leading :: "jsstring \<Rightarrow> jsstring" where
  \<comment> \<open>\<open>.replace(/^[^a-zA-Z0-9]+/, '')\<close>: the pattern is anchored at the start and has no
      flag, so it removes the longest leading run of code units outside \<open>[a-zA-Z0-9]\<close>.\<close>
  "strip_leading s = dropWhile (\<lambda>c. \<not> is_alnum c) s"

definition clean :: "jsstring \<Rightarrow> jsstring" where
  \<comment> \<open>\<open>match[1].trim().replace(/^[^a-zA-Z0-9]+/, '').trim()\<close>\<close>
  "clean raw = trim (strip_leading (trim raw))"

definition not_found :: jsstring where
  "not_found = str ''Not Found''"

definition extract_helper :: "jsstring \<Rightarrow> regex \<Rightarrow> jsstring" where
  \<comment> \<open>the helper \<open>extract\<close> of the source: its test of the match and of group 1 is false when there
      is no match, when group 1 is undefined and when it is the empty string.\<close>
  "extract_helper text regex =
     (case regexp_exec regex True text of
        None \<Rightarrow> not_found
      | Some a \<Rightarrow>
          (case a 1 of
             None \<Rightarrow> not_found
           | Some raw \<Rightarrow> if raw = [] then not_found else clean raw))"

definition extractDetails :: "jsstring \<Rightarrow> (string \<times> jsstring) list" where
  \<comment> \<open>the object literal, its properties in the order of the source\<close>
  "extractDetails text =
     [(''employerName'', extract_helper text re_employerName),
      (''TAN'', extract_helper text re_TAN),
      (''employerPAN'', extract_helper text re_employerPAN),
      (''employeeName'', extract_helper text re_employeeName),
      (''employeePAN'', extract_helper text re_employeePAN),
      (''assessmentYear'', extract_helper text re_assessmentYear),
      (''grossSalary'', extract_helper text (monetary lbl_grossSalary)),
      (''standardDeduction'', extract_helper text (monetary lbl_standardDeduction)),
      (''professionalTax'', extract_helper text (monetary lbl_professionalTax)),
      (''incomeChargeable'', extract_helper text (monetary lbl_incomeChargeable)),
      (''totalDeductionsVIA'', extract_helper text (monetary lbl_totalDeductionsVIA)),
      (''totalTaxableIncome'', extract_helper text (monetary lbl_totalTaxableIncome)),
      (''taxOnTotalIncome'', extract_helper text (monetary lbl_taxOnTotalIncome)),
      (''cess'', extract_helper text (monetary lbl_cess)),
      (''totalTDS'', extract_helper text (monetary lbl_totalTDS))]"

definition canonical_keys :: "string list" where
  "canonical_keys =
     [''employeeName'', ''employeePAN'', ''employerName'', ''employerPAN'', ''TAN'',
      ''assessmentYear'', ''grossSalary'', ''standardDeduction'', ''professionalTax'',
      ''incomeChargeable'', ''totalDeductionsVIA'', ''totalTaxableIncome'',
      ''taxOnTotalIncome'', ''cess'', ''totalTDS'']"

section \<open>The rules as a table\<close>

definition rules :: "(string \<times> regex) list" where
  \<comment> \<open>each property of the result with the pattern handed to the helper for it\<close>
  "rules =
     [(''employerName'', re_employerName),
      (''TAN'', re_TAN),
      (''employerPAN'', re_employerPAN),
      (''employeeName'', re_employeeName),
      (''employeePAN'', re_employeePAN),
      (''assessmentYear'', re_assessmentYear),
      (''grossSalary'', monetary lbl_grossSalary),
      (''standardDeduction'', monetary lbl_standardDeduction),
      (''professionalTax'', monetary lbl_professionalTax),
      (''incomeChargeable'', monetary lbl_incomeChargeable),
      (''totalDeductionsVIA'', monetary lbl_totalDeductionsVIA),
      (''totalTaxableIncome'', monetary lbl_totalTaxableIncome),
      (''taxOnTotalIncome'', monetary lbl_taxOnTotalIncome),
      (''cess'', monetary lbl_cess),
      (''totalTDS'', monetary lbl_totalTDS)]"

definition identifier_labels :: "(string \<times> regex list) list" where
  "identifier_labels =
     [(''TAN'', lbl_TAN), (''employerPAN'', lbl_employerPAN), (''employeePAN'', lbl_employeePAN)]"

definition monetary_labels :: "(string \<times> regex list) list" where
  "monetary_labels =
     [(''grossSalary'', lbl_grossSalary),
      (''standardDeduction'', lbl_standardDeduction),
      (''professionalTax'', lbl_professionalTax),
      (''incomeChargeable'', lbl_incomeChargeable),
      (''totalDeductionsVIA'', lbl_totalDeductionsVIA),
      (''totalTaxableIncome'', lbl_totalTaxableIncome),
      (''taxOnTotalIncome'', lbl_taxOnTotalIncome),
      (''cess'', lbl_cess),
      (''totalTDS'', lbl_totalTDS)]"

definition labels :: "(string \<times> regex list) list" where
  "labels =
     [(''employerName'', lbl_employerName), (''employeeName'', lbl_employeeName),
      (''assessmentYear'', lbl_assessmentYear)] @ identifier_labels @ monetary_labels"

definition label_occurs :: "regex list \<Rightarrow> jsstring \<Rightarrow> bool" where
  \<comment> \<open>the label, as a pattern of its own with the \<open>i\<close> flag, matches somewhere in the text\<close>
  "label_occurs lbl text = (regexp_exec (cat lbl) True text \<noteq> None)"

fun no_match_in :: "regex \<Rightarrow> bool \<Rightarrow> jsstring \<Rightarrow> jsstring \<Rightarrow> bool" where
  \<comment> \<open>in the text \<open>pre @ rest\<close> the pattern matches at no start index inside \<open>pre\<close>\<close>
  "no_match_in r ic [] rest = True"
| "no_match_in r ic (x # xs) rest =
     (match_at r ic (x # xs @ rest) = None \<and> no_match_in r ic xs rest)"

definition already_clean :: "jsstring \<Rightarrow> bool" where
  \<comment> \<open>no leading punctuation and no surrounding whitespace: the value is empty, or it
      starts with a character of \<open>[a-zA-Z0-9]\<close> (the characters the cleaning keeps at the
      front) and does not end with whitespace\<close>
  "already_clean v = (case v of [] \<Rightarrow> True | c # _ \<Rightarrow> is_alnum c \<and> \<not> is_space (last v))"

definition good_capture :: "jsstring \<Rightarrow> bool" where
  \<comment> \<open>a captured value that the cleaning cannot empty\<close>
  "good_capture w = (w \<noteq> [] \<and> \<not> is_space (hd w) \<and> is_alnum (last w))"

definition helper_spec :: "jsstring \<Rightarrow> regex \<Rightarrow> jsstring" where
  \<comment> \<open>the value of a rule as the specification words it: the sentinel when nothing
      matches or the cleaned value is empty, the cleaned value of group 1 otherwise\<close>
  "helper_spec text r =
     (case regexp_exec r True text of
        None \<Rightarrow> not_found
      | Some a \<Rightarrow>
          (case a 1 of
             None \<Rightarrow> not_found
           | Some raw \<Rightarrow> if clean raw = [] then not_found else clean raw))"

definition ends :: "regex \<Rightarrow> bool \<Rightarrow> jsstring \<Rightarrow> captures \<Rightarrow> (jsstring \<times> captures) option" where
  \<comment> \<open>where the first successful way of matching ends, and with which captures\<close>
  "ends r ic s c = m r ic s c (\<lambda>s' c'. Some (s', c'))"

definition group1 :: "captures option \<Rightarrow> jsstring option" where
  \<comment> \<open>element 1 of the result of a match: \<open>None\<close> without a match or without the group\<close>
  "group1 res = (case res of None \<Rightarrow> None | Some a \<Rightarrow> a 1)"

definition whole_match :: "captures option \<Rightarrow> jsstring option" where
  \<comment> \<open>element 0 of the result of a match: the matched substring\<close>
  "whole_match res = (case res of None \<Rightarrow> None | Some a \<Rightarrow> a 0)"

definition full_match_text :: jsstring where
  \<comment> \<open>the text of the full-match scenario\<close>
  "full_match_text = str ''Name of the Employer: Acme Corp TAN: ABCDE1234F''"





text \<open>The conditions of the specification as it words them, to compare with the code:
  a value "with no leading punctuation and no surrounding whitespace", and a Currency
  Pattern of "digit groups with commas, a dot, exactly two decimal digits".\<close>

definition is_ascii_punctuation :: "nat \<Rightarrow> bool" where
  "is_ascii_punctuation c =
     ((33 \<le> c \<and> c \<le> 47) \<or> (58 \<le> c \<and> c \<le> 64) \<or> (91 \<le> c \<and> c \<le> 96) \<or> (123 \<le> c \<and> c \<le> 126))"

definition clean_as_worded :: "jsstring \<Rightarrow> bool" where
  "clean_as_worded v =
     (case v of [] \<Rightarrow> True
      | c # _ \<Rightarrow> \<not> is_ascii_punctuation c \<and> \<not> is_space c \<and> \<not> is_space (last v))"



section \<open>The language of a pattern\<close>

text \<open>
  What a pattern can match, without the order in which the matcher tries: the matcher
  is sound for it. A quantifier stops at its maximum also when that is below its minimum,
  which the source language rejects when the pattern is read.
\<close>

primrec groups :: "regex \<Rightarrow> nat set" where
  "groups Empty = {}"
| "groups (Atom a) = {}"
| "groups (Quant a mn mx g) = {}"
| "groups (Seq r1 r2) = groups r1 \<union> groups r2"
| "groups (Alt r1 r2) = groups r1 \<union> groups r2"
| "groups (Opt r) = groups r"
| "groups (Group n r) = insert n (groups r)"

definition within_max :: "nat option \<Rightarrow> nat \<Rightarrow> bool" where
  "within_max mx n = (case mx of None \<Rightarrow> True | Some b \<Rightarrow> n \<le> b)"

primrec lang :: "regex \<Rightarrow> bool \<Rightarrow> jsstring set" where
  "lang Empty ic = {[]}"
| "lang (Atom a) ic = {[x] | x. atom_match ic a x}"
| "lang (Quant a mn mx g) ic =
     {w. (\<forall>x \<in> set w. atom_match ic a x) \<and> within_max mx (length w)
         \<and> (mn \<le> length w \<or> mx = Some (length w))}"
| "lang (Seq r1 r2) ic = {u @ v | u v. u \<in> lang r1 ic \<and> v \<in> lang r2 ic}"
| "lang (Alt r1 r2) ic = lang r1 ic \<union> lang r2 ic"
| "lang (Opt r) ic = insert [] (lang r ic)"
| "lang (Group n r) ic = lang r ic"

section \<open>Soundness of the matcher\<close>

lemma within_max_dec: "within_max (dec_max mx) n \<Longrightarrow> mx \<noteq> Some 0 \<Longrightarrow> within_max mx (Suc n)"
  by (cases mx) (auto simp: within_max_def dec_max_def)

lemma dec_max_Some: "dec_max mx = Some n \<Longrightarrow> mx \<noteq> Some 0 \<Longrightarrow> mx = Some (Suc n)"
  by (cases mx) (auto simp: dec_max_def)

lemma rep_sound:
  "rep g p mn mx s k = Some z \<Longrightarrow>
   \<exists>w s'. s = w @ s' \<and> (\<forall>x \<in> set w. p x) \<and> within_max mx (length w)
          \<and> (mn \<le> length w \<or> mx = Some (length w)) \<and> k s' = Some z"
proof (induction s arbitrary: mn mx)
  case Nil
  then have "k [] = Some z" and "mn = 0 \<or> mx = Some 0"
    by (auto split: if_splits)
  then show ?case
    by - (rule exI [of _ "[]"], auto simp: within_max_def split: option.split)
next
  case (Cons x xs)
  have stop: ?case if "k (x # xs) = Some z" "mn = 0 \<or> mx = Some 0"
    using that by - (rule exI [of _ "[]"], rule exI [of _ "x # xs"], auto simp: within_max_def split: option.split)
  have more: ?case
    if px: "p x" and nz: "mx \<noteq> Some 0" and r: "rep g p (mn - 1) (dec_max mx) xs k = Some z"
  proof -
    from Cons.IH [OF r] obtain w s' where
      w: "xs = w @ s'" "\<forall>x \<in> set w. p x" "within_max (dec_max mx) (length w)"
         "mn - 1 \<le> length w \<or> dec_max mx = Some (length w)" "k s' = Some z"
      by blast
    from w(4) nz have "mn \<le> Suc (length w) \<or> mx = Some (Suc (length w))"
      by (auto dest: dec_max_Some)
    with w px nz show ?thesis
      by - (rule exI [of _ "x # w"], rule exI [of _ s'], auto intro: within_max_dec)
  qed
  show ?case
  proof (cases "mx = Some 0")
    case True
    with Cons.prems have "k (x # xs) = Some z" by simp
    then show ?thesis using True by (intro stop) simp_all
  next
    case nz: False
    show ?thesis
    proof (cases "mn = 0")
      case False
      with nz Cons.prems have "p x" "rep g p (mn - 1) (dec_max mx) xs k = Some z"
        by (auto split: if_splits)
      with nz show ?thesis by (intro more)
    next
      case True
      note mn0 = True
      show ?thesis
      proof (cases "p x \<and> rep g p 0 (dec_max mx) xs k \<noteq> None")
        case False
        with mn0 nz Cons.prems have "k (x # xs) = Some z"
          by (cases g) (auto split: option.splits if_splits)
        then show ?thesis using mn0 by (intro stop) simp_all
      next
        case True
        then obtain y where px: "p x" and y: "rep g p 0 (dec_max mx) xs k = Some y" by auto
        show ?thesis
        proof (cases "g \<or> k (x # xs) = None")
          case True
          with y mn0 nz px Cons.prems have "rep g p (mn - 1) (dec_max mx) xs k = Some z"
            by (cases g) auto
          with px nz show ?thesis by (intro more)
        next
          case False
          with mn0 nz Cons.prems have "k (x # xs) = Some z" by auto
          then show ?thesis using mn0 by (intro stop) simp_all
        qed
      qed
    qed
  qed
qed

lemma m_sound:
  "m r ic s c k = Some z \<Longrightarrow>
   \<exists>w s' c'. s = w @ s' \<and> w \<in> lang r ic \<and> (\<forall>n. n \<notin> groups r \<longrightarrow> c' n = c n)
             \<and> k s' c' = Some z"
proof (induction r arbitrary: s c k)
  case Empty
  then show ?case by auto
next
  case (Atom a)
  then obtain x xs where "s = x # xs" "atom_match ic a x" "k xs c = Some z"
    by (cases s) (auto split: if_splits)
  then show ?case
    by - (rule exI [of _ "[x]"], rule exI [of _ xs], rule exI [of _ c], simp)
next
  case (Quant a mn mx g)
  then have "rep g (atom_match ic a) mn mx s (\<lambda>s'. k s' c) = Some z" by simp
  from rep_sound [OF this] show ?case by auto
next
  case (Seq r1 r2)
  then have "m r1 ic s c (\<lambda>s' c'. m r2 ic s' c' k) = Some z" by simp
  from Seq.IH(1) [OF this] obtain u s1 c1 where
    u: "s = u @ s1" "u \<in> lang r1 ic" "\<forall>n. n \<notin> groups r1 \<longrightarrow> c1 n = c n"
       "m r2 ic s1 c1 k = Some z"
    by blast
  from Seq.IH(2) [OF u(4)] obtain v s2 c2 where
    v: "s1 = v @ s2" "v \<in> lang r2 ic" "\<forall>n. n \<notin> groups r2 \<longrightarrow> c2 n = c1 n"
       "k s2 c2 = Some z"
    by blast
  show ?case
    using u v by - (rule exI [of _ "u @ v"], rule exI [of _ s2], rule exI [of _ c2], auto)
next
  case (Alt r1 r2)
  show ?case
  proof (cases "m r1 ic s c k")
    case None
    with Alt.prems have "m r2 ic s c k = Some z" by simp
    from Alt.IH(2) [OF this] show ?thesis by auto
  next
    case (Some y)
    with Alt.prems have "m r1 ic s c k = Some z" by simp
    from Alt.IH(1) [OF this] show ?thesis by auto
  qed
next
  case (Opt r)
  let ?k = "\<lambda>s' c'. if length s' = length s then None else k s' c'"
  show ?case
  proof (cases "m r ic s c ?k")
    case None
    with Opt.prems have "k s c = Some z" by simp
    then show ?thesis by - (rule exI [of _ "[]"], rule exI [of _ s], rule exI [of _ c], simp)
  next
    case (Some y)
    with Opt.prems have "m r ic s c ?k = Some z" by simp
    from Opt.IH [OF this] show ?thesis by (auto split: if_splits)
  qed
next
  case (Group n r)
  let ?k = "\<lambda>s' c'. k s' (c'(n := Some (take (length s - length s') s)))"
  from Group.prems have "m r ic s c ?k = Some z" by simp
  from Group.IH [OF this] obtain w s' c' where
    w: "s = w @ s'" "w \<in> lang r ic" "\<forall>n. n \<notin> groups r \<longrightarrow> c' n = c n" "?k s' c' = Some z"
    by blast
  let ?c = "c'(n := Some (take (length s - length s') s))"
  from w(3) have "\<forall>j. j \<notin> groups (Group n r) \<longrightarrow> ?c j = c j" by simp
  moreover from w(4) have "k s' ?c = Some z" .
  ultimately have "s = w @ s' \<and> w \<in> lang (Group n r) ic
      \<and> (\<forall>j. j \<notin> groups (Group n r) \<longrightarrow> ?c j = c j) \<and> k s' ?c = Some z"
    using w(1,2) by simp
  then show ?case by blast
qed

lemma m_group_capture:
  assumes "m (Group n r) ic s c k = Some z"
  shows "\<exists>w s' c'. s = w @ s' \<and> w \<in> lang r ic \<and> k s' (c'(n := Some w)) = Some z"
proof -
  let ?k = "\<lambda>s' c'. k s' (c'(n := Some (take (length s - length s') s)))"
  from assms have "m r ic s c ?k = Some z" by simp
  from m_sound [OF this] obtain w s' c' where
    w: "s = w @ s'" "w \<in> lang r ic" "?k s' c' = Some z"
    by blast
  then have "k s' (c'(n := Some w)) = Some z" by simp
  with w show ?thesis by blast
qed

lemma m_cat_append:
  "m (cat (xs @ ys)) ic s c k = m (cat xs) ic s c (\<lambda>s' c'. m (cat ys) ic s' c' k)"
proof (induction xs arbitrary: s c k rule: cat.induct)
  case 1
  show ?case by simp
next
  case (2 r)
  show ?case by (cases ys) simp_all
next
  case (3 r v va)
  then show ?case by simp
qed

lemma exec_some:
  "regexp_exec r ic s = Some a \<Longrightarrow> \<exists>p s'. s = p @ s' \<and> match_at r ic s' = Some a"
proof (induction s)
  case Nil
  then show ?case by simp
next
  case (Cons x xs)
  show ?case
  proof (cases "match_at r ic (x # xs)")
    case None
    with Cons.prems have "regexp_exec r ic xs = Some a" by simp
    from Cons.IH [OF this] obtain p s' where "xs = p @ s'" "match_at r ic s' = Some a" by blast
    then show ?thesis by - (rule exI [of _ "x # p"], rule exI [of _ s'], simp)
  next
    case (Some y)
    with Cons.prems have "match_at r ic (x # xs) = Some a" by simp
    then show ?thesis by - (rule exI [of _ "[]"], rule exI [of _ "x # xs"], simp)
  qed
qed

lemma groups_lit [simp]: "groups (lit s) = {}"
  by (induction s rule: lit.induct) simp_all

lemma groups_cat [simp]: "groups (cat rs) = (\<Union>r \<in> set rs. groups r)"
  by (induction rs rule: cat.induct) auto

lemma exec_no_group:
  assumes "regexp_exec r ic s = Some a" and "n \<notin> groups r" and "n \<noteq> 0"
  shows "a n = None"
proof -
  from exec_some [OF assms(1)] obtain p s' where "match_at r ic s' = Some a" by blast
  then have "m r ic s' (\<lambda>_. None) (accept s') = Some a" by (simp add: match_at_def)
  from m_sound [OF this] obtain c' s'' where
    "\<forall>n. n \<notin> groups r \<longrightarrow> c' n = None" "accept s' s'' c' = Some a"
    by blast
  with assms(2,3) show ?thesis by (auto simp: accept_def)
qed

lemma extract_no_group: "1 \<notin> groups r \<Longrightarrow> extract_helper text r = not_found"
  by (auto simp: extract_helper_def dest: exec_no_group split: option.splits)

section \<open>The cleaning step\<close>

lemma alnum_not_space: "is_alnum c \<Longrightarrow> \<not> is_space c"
  by (auto simp: is_alnum_def is_space_def)

lemma unsplit_rev:
  "rev (dropWhile P (rev u)) @ rev (takeWhile P (rev u)) = u"
proof -
  have "rev (dropWhile P (rev u)) @ rev (takeWhile P (rev u))
      = rev (takeWhile P (rev u) @ dropWhile P (rev u))"
    by (simp only: rev_append)
  also have "\<dots> = u" by (simp only: takeWhile_dropWhile_id rev_rev_ident)
  finally show ?thesis .
qed

lemma trim_id:
  assumes "v = [] \<or> (\<not> is_space (hd v) \<and> \<not> is_space (last v))"
  shows "trim v = v"
proof (cases "v = []")
  case True
  then show ?thesis by (simp add: trim_def)
next
  case False
  with assms have h: "\<not> is_space (hd v)" and l: "\<not> is_space (last v)" by auto
  from h have 1: "dropWhile is_space v = v" by (simp add: dropWhile_eq_self_iff)
  from False have "hd (rev v) = last v" by (simp add: hd_rev)
  with l have "\<not> is_space (hd (rev v))" by simp
  then have 2: "dropWhile is_space (rev v) = rev v" by (simp add: dropWhile_eq_self_iff)
  show ?thesis by (simp add: trim_def 1 2)
qed

lemma clean_fixed: "already_clean v \<Longrightarrow> clean v = v"
proof (cases v)
  case Nil
  then show ?thesis by (simp add: clean_def trim_def strip_leading_def)
next
  case (Cons c cs)
  assume "already_clean v"
  with Cons have a: "is_alnum (hd v)" and l: "\<not> is_space (last v)"
    by (auto simp: already_clean_def)
  from a have "\<not> is_space (hd v)" by (rule alnum_not_space)
  with l have t: "trim v = v" by (intro trim_id) simp
  from a have s: "strip_leading v = v" by (simp add: strip_leading_def dropWhile_eq_self_iff)
  show ?thesis by (simp add: clean_def t s)
qed

lemma trim_shape:
  assumes "u = [] \<or> \<not> is_space (hd u)"
  shows "trim u = [] \<or> (hd (trim u) = hd u \<and> \<not> is_space (last (trim u)))"
proof -
  from assms have 1: "dropWhile is_space u = u" by (auto simp: dropWhile_eq_self_iff)
  let ?d = "dropWhile is_space (rev u)"
  have t: "trim u = rev ?d" by (simp add: trim_def 1)
  show ?thesis
  proof (cases "?d = []")
    case True
    with t show ?thesis by simp
  next
    case False
    then have "\<not> is_space (hd ?d)" by (rule hd_dropWhile)
    moreover from False have "last (rev ?d) = hd ?d" by (simp add: last_rev)
    ultimately have l: "\<not> is_space (last (trim u))" by (simp add: t)
    have "hd (rev ?d @ rev (takeWhile is_space (rev u))) = hd (rev ?d)"
      using False by simp
    then have "hd u = hd (rev ?d)" by (simp only: unsplit_rev)
    with l t show ?thesis by simp
  qed
qed

lemma clean_already_clean: "already_clean (clean v)"
proof -
  let ?u = "strip_leading (trim v)"
  have u: "?u = [] \<or> is_alnum (hd ?u)"
    using hd_dropWhile [of "\<lambda>c. \<not> is_alnum c" "trim v"] by (auto simp: strip_leading_def)
  then have "?u = [] \<or> \<not> is_space (hd ?u)" by (auto dest: alnum_not_space)
  from trim_shape [OF this]
  have sh: "trim ?u = [] \<or> (hd (trim ?u) = hd ?u \<and> \<not> is_space (last (trim ?u)))" .
  show ?thesis
  proof (cases "trim ?u")
    case Nil
    then show ?thesis by (simp add: already_clean_def clean_def)
  next
    case (Cons c cs)
    then have ne: "trim ?u \<noteq> []" by simp
    have "?u \<noteq> []"
    proof
      assume "?u = []"
      then have "trim ?u = []" by (simp add: trim_def)
      with ne show False by simp
    qed
    with u have "is_alnum (hd ?u)" by simp
    with sh ne have "is_alnum (hd (trim ?u))" "\<not> is_space (last (trim ?u))" by auto
    with Cons show ?thesis by (simp add: already_clean_def clean_def)
  qed
qed

lemma clean_idem: "clean (clean v) = clean v"
  by (rule clean_fixed) (rule clean_already_clean)

lemma clean_last_alnum:
  assumes "v \<noteq> []" "\<not> is_space (hd v)" "is_alnum (last v)"
  shows "clean v = strip_leading v" "clean v \<noteq> []"
proof -
  from assms have t: "trim v = v" by (intro trim_id) (auto dest: alnum_not_space)
  let ?u = "strip_leading v"
  from assms(1,3) have "\<exists>x \<in> set v. \<not> \<not> is_alnum x" by (auto intro: bexI [of _ "last v"])
  then have ne: "?u \<noteq> []" by (simp add: strip_leading_def dropWhile_eq_Nil_conv)
  then have h: "is_alnum (hd ?u)"
    using hd_dropWhile [of "\<lambda>c. \<not> is_alnum c" v] by (simp add: strip_leading_def)
  have "v = takeWhile (\<lambda>c. \<not> is_alnum c) v @ ?u" by (simp add: strip_leading_def)
  then have "last v = last (takeWhile (\<lambda>c. \<not> is_alnum c) v @ ?u)" by (rule arg_cong)
  with ne have "last v = last ?u" by simp
  with assms(3) have "\<not> is_space (last ?u)" by (auto dest: alnum_not_space)
  with h ne have "already_clean ?u" by (cases ?u) (auto simp: already_clean_def)
  then have "trim ?u = ?u" using h
    by (intro trim_id) (cases ?u, auto simp: already_clean_def dest: alnum_not_space)
  with t show "clean v = strip_leading v" by (simp add: clean_def)
  with ne show "clean v \<noteq> []" by simp
qed

lemma clean_example: "clean (str '': ABCDE1234F'') = str ''ABCDE1234F''"
  by (simp add: clean_def trim_def strip_leading_def str_def is_space_def is_alnum_def)

text \<open>What each step of the cleaning removes and what it leaves.\<close>

lemma trim_spec:
  "\<exists>a b. v = a @ trim v @ b \<and> (\<forall>c \<in> set a. is_space c) \<and> (\<forall>c \<in> set b. is_space c)
         \<and> (trim v = [] \<or> (\<not> is_space (hd (trim v)) \<and> \<not> is_space (last (trim v))))"
proof -
  let ?d = "dropWhile is_space v"
  let ?a = "takeWhile is_space v"
  let ?b = "rev (takeWhile is_space (rev ?d))"
  have t: "trim v = rev (dropWhile is_space (rev ?d))" by (simp add: trim_def)
  have "?d = trim v @ ?b" unfolding t by (simp only: unsplit_rev)
  then have "?a @ ?d = ?a @ trim v @ ?b" by simp
  then have 1: "v = ?a @ trim v @ ?b" by simp
  have 2: "\<forall>c \<in> set ?a. is_space c" by (auto dest: set_takeWhileD)
  have 3: "\<forall>c \<in> set ?b. is_space c" by (auto dest: set_takeWhileD)
  have d: "?d = [] \<or> \<not> is_space (hd ?d)"
    using hd_dropWhile [of is_space v] by auto
  have e: "trim ?d = trim v" by (simp add: trim_def)
  have 4: "trim v = [] \<or> (\<not> is_space (hd (trim v)) \<and> \<not> is_space (last (trim v)))"
  proof (cases "?d = []")
    case True
    have "trim v = []" unfolding t True by simp
    then show ?thesis by (rule disjI1)
  next
    case False
    with d have nd: "\<not> is_space (hd ?d)" by blast
    from trim_shape [OF d]
    have "trim v = [] \<or> (hd (trim v) = hd ?d \<and> \<not> is_space (last (trim v)))"
      unfolding e .
    with nd show ?thesis by metis
  qed
  from 1 2 3 4 show ?thesis by blast
qed

lemma strip_spec:
  "\<exists>p. v = p @ strip_leading v \<and> (\<forall>c \<in> set p. \<not> is_alnum c)
       \<and> (strip_leading v = [] \<or> is_alnum (hd (strip_leading v)))"
proof -
  let ?p = "takeWhile (\<lambda>c. \<not> is_alnum c) v"
  have 1: "v = ?p @ strip_leading v" by (simp add: strip_leading_def)
  have 2: "\<forall>c \<in> set ?p. \<not> is_alnum c" by (auto dest: set_takeWhileD)
  have 3: "strip_leading v = [] \<or> is_alnum (hd (strip_leading v))"
    using hd_dropWhile [of "\<lambda>c. \<not> is_alnum c" v] by (auto simp: strip_leading_def)
  from 1 2 3 show ?thesis by blast
qed

lemma clean_steps:
  "\<exists>t1 t2 w1 w2 p w3 w4.
      raw = w1 @ t1 @ w2 \<and> (\<forall>c \<in> set w1. is_space c) \<and> (\<forall>c \<in> set w2. is_space c)
      \<and> (t1 = [] \<or> (\<not> is_space (hd t1) \<and> \<not> is_space (last t1)))
      \<and> t1 = p @ t2 \<and> (\<forall>c \<in> set p. \<not> is_alnum c) \<and> (t2 = [] \<or> is_alnum (hd t2))
      \<and> t2 = w3 @ clean raw @ w4 \<and> (\<forall>c \<in> set w3. is_space c) \<and> (\<forall>c \<in> set w4. is_space c)
      \<and> (clean raw = [] \<or> (\<not> is_space (hd (clean raw)) \<and> \<not> is_space (last (clean raw))))"
proof -
  let ?t1 = "trim raw" and ?t2 = "strip_leading (trim raw)"
  from trim_spec [of raw] obtain w1 w2 where
    a: "raw = w1 @ ?t1 @ w2" "\<forall>c \<in> set w1. is_space c" "\<forall>c \<in> set w2. is_space c"
       "?t1 = [] \<or> (\<not> is_space (hd ?t1) \<and> \<not> is_space (last ?t1))"
    by blast
  from strip_spec [of ?t1] obtain p where
    b: "?t1 = p @ ?t2" "\<forall>c \<in> set p. \<not> is_alnum c" "?t2 = [] \<or> is_alnum (hd ?t2)"
    by blast
  from trim_spec [of ?t2] obtain w3 w4 where
    c: "?t2 = w3 @ trim ?t2 @ w4" "\<forall>c \<in> set w3. is_space c" "\<forall>c \<in> set w4. is_space c"
       "trim ?t2 = [] \<or> (\<not> is_space (hd (trim ?t2)) \<and> \<not> is_space (last (trim ?t2)))"
    by blast
  show ?thesis
    apply (rule exI [of _ ?t1], rule exI [of _ ?t2], rule exI [of _ w1], rule exI [of _ w2])
    apply (rule exI [of _ p], rule exI [of _ w3], rule exI [of _ w4])
    unfolding clean_def using a b c by (intro conjI) assumption+
qed

lemma alnum_not_punctuation: "is_alnum c \<Longrightarrow> \<not> is_ascii_punctuation c"
  by (auto simp: is_alnum_def is_ascii_punctuation_def)

lemma already_clean_worded: "already_clean v \<Longrightarrow> clean_as_worded v"
  by (cases v)
     (auto simp: already_clean_def clean_as_worded_def
        dest: alnum_not_space alnum_not_punctuation)

text \<open>
  C9, as amended. The cleaning step (trim, strip the leading characters outside
  [a-zA-Z0-9], trim) leaves a value unchanged exactly when the value is empty, or
  starts with a character of [a-zA-Z0-9] and does not end with whitespace.
\<close>

theorem clean_idempotent_on_clean: "clean v = v \<longleftrightarrow> already_clean v"
proof
  assume "clean v = v"
  with clean_already_clean [of v] show "already_clean v" by simp
next
  assume "already_clean v"
  then show "clean v = v" by (rule clean_fixed)
qed

theorem clean_idempotent_on_clean_witness:
  "already_clean (str ''Acme Corp'') \<and> clean (str ''Acme Corp'') = str ''Acme Corp''"
proof -
  have h: "already_clean (str ''Acme Corp'')"
    by (simp add: already_clean_def str_def is_alnum_def is_space_def)
  from h clean_idempotent_on_clean [THEN iffD2, OF h] show ?thesis by (rule conjI)
qed

text \<open>
  The claim as it was stated, for every value with no leading punctuation and no
  surrounding whitespace, fails for a value that starts with a letter outside
  [a-zA-Z0-9]: the five code units of the word Ecole written with a capital E acute
  (U+00C9, 201) have no leading punctuation and no surrounding whitespace, and the
  cleaning step drops the first of them.
\<close>

theorem clean_idempotent_counterexample:
  "clean_as_worded [201, 99, 111, 108, 101]
   \<and> clean [201, 99, 111, 108, 101] = [99, 111, 108, 101]
   \<and> clean [201, 99, 111, 108, 101] \<noteq> [201, 99, 111, 108, 101]"
  by (simp add: clean_as_worded_def is_ascii_punctuation_def clean_def trim_def
        strip_leading_def is_space_def is_line_terminator_def is_alnum_def)

section \<open>Shape of the result\<close>

lemma keys_of_extractDetails:
  "map fst (extractDetails text) =
     [''employerName'', ''TAN'', ''employerPAN'', ''employeeName'', ''employeePAN'',
      ''assessmentYear'', ''grossSalary'', ''standardDeduction'', ''professionalTax'',
      ''incomeChargeable'', ''totalDeductionsVIA'', ''totalTaxableIncome'',
      ''taxOnTotalIncome'', ''cess'', ''totalTDS'']"
  by (simp add: extractDetails_def)

lemma extractDetails_rules:
  "extractDetails text = map (\<lambda>(k, r). (k, extract_helper text r)) rules"
  by (simp add: extractDetails_def rules_def)

text \<open>
  C1. For every input string, the empty one included, extractDetails returns a mapping
  with each of the fifteen canonical keys exactly once, each bound to a string. The
  function is total: the model has no error value because the source has no raise, and
  the matcher is defined by structural recursion.
\<close>

theorem extractDetails_total:
  "length (extractDetails text) = 15
   \<and> distinct (map fst (extractDetails text))
   \<and> set (map fst (extractDetails text)) = set canonical_keys
   \<and> (\<forall>k \<in> set canonical_keys. \<exists>v. map_of (extractDetails text) k = Some v)"
proof -
  have d: "distinct (map fst (extractDetails text))"
    by (simp add: keys_of_extractDetails)
  have s: "set (map fst (extractDetails text)) = set canonical_keys"
    unfolding keys_of_extractDetails canonical_keys_def by auto
  have "\<exists>v. map_of (extractDetails text) k = Some v" if "k \<in> set canonical_keys" for k
  proof -
    from that s have "k \<in> fst ` set (extractDetails text)" by simp
    then show ?thesis by (metis domIff dom_map_of_conv_image_fst not_Some_eq)
  qed
  with d s show ?thesis by (simp add: extractDetails_def)
qed

theorem extractDetails_total_witness:
  "length (extractDetails []) = 15
   \<and> distinct (map fst (extractDetails []))
   \<and> set (map fst (extractDetails [])) = set canonical_keys
   \<and> (\<exists>v. map_of (extractDetails []) ''totalTDS'' = Some v)"
proof -
  have "''totalTDS'' \<in> set canonical_keys" by (simp add: canonical_keys_def)
  with extractDetails_total [of "[]"] show ?thesis by blast
qed

section \<open>The name rules\<close>

lemma extract_employerName: "extract_helper text re_employerName = not_found"
  by (rule extract_no_group)
     (simp add: re_employerName_def lbl_employerName_def ws_def gap_def the_opt_def)

lemma extract_employeeName: "extract_helper text re_employeeName = not_found"
  by (rule extract_no_group)
     (simp add: re_employeeName_def lbl_employeeName_def ws_def gap_def the_opt_def)

text \<open>
  C3. For every input text the values of employerName and employeeName are "Not Found":
  their patterns have no capturing group, so element 1 of the match is undefined.
\<close>

theorem names_always_not_found:
  "map_of (extractDetails text) ''employerName'' = Some not_found
   \<and> map_of (extractDetails text) ''employeeName'' = Some not_found"
  by (simp add: extractDetails_def extract_employerName extract_employeeName)

section \<open>Determinism\<close>

text \<open>
  C10. Two applications of extractDetails to the same text give the same mapping. The
  source reads nothing but its argument: each pattern is a fresh object without the
  \<open>g\<close> or \<open>y\<close> flag, so no \<open>lastIndex\<close> is carried from one call to the next, and the
  model is a function of the text alone.
\<close>

theorem extractDetails_deterministic:
  "text1 = text2 \<Longrightarrow> extractDetails text1 = extractDetails text2"
  by simp

theorem extractDetails_deterministic_witness:
  "extractDetails (str ''TAN: ABCDE1234F'') = extractDetails (str ''TAN: ABCDE1234F'')"
  by (rule extractDetails_deterministic) (rule refl)

section \<open>What a rule captures\<close>

lemmas ev = str_def is_space_def is_line_terminator_def is_digit_def is_alnum_def
  to_upper_def to_lower_def canonicalize_def in_range_def dec_max_def accept_def match_at_def
  ws_def gap_def dot_gap_def sep_def the_opt_def id10_def currencyRegex_source_def
  monetary_def trim_def strip_leading_def clean_def not_found_def extract_helper_def

lemma exec_capture:
  assumes "regexp_exec (cat (items @ [Group n R])) ic text = Some a" and "n \<noteq> 0"
  shows "\<exists>p l w post. text = p @ l @ w @ post \<and> l \<in> lang (cat items) ic \<and> w \<in> lang R ic
           \<and> a n = Some w"
proof -
  from exec_some [OF assms(1)] obtain p s where
    s: "text = p @ s" "match_at (cat (items @ [Group n R])) ic s = Some a"
    by blast
  from s(2) have
    "m (cat items) ic s (\<lambda>_. None) (\<lambda>s' c'. m (Group n R) ic s' c' (accept s)) = Some a"
    by (simp add: match_at_def m_cat_append)
  from m_sound [OF this] obtain l s1 c1 where
    l: "s = l @ s1" "l \<in> lang (cat items) ic" "m (Group n R) ic s1 c1 (accept s) = Some a"
    by blast
  from m_group_capture [OF l(3)] obtain w s2 c2 where
    w: "s1 = w @ s2" "w \<in> lang R ic" "accept s s2 (c2(n := Some w)) = Some a"
    by blast
  from w(3) assms(2) have "a n = Some w" by (auto simp: accept_def)
  with s(1) l(1,2) w(1,2) show ?thesis by blast
qed

lemma canonicalize_punct:
  "c < 65 \<Longrightarrow> canonicalize ic c = canonicalize ic x \<longleftrightarrow> x = c"
  by (auto simp: canonicalize_def to_upper_def)

lemma alnum_class: "atom_match True (AClass [CRange 65 90, CRange 48 57]) c = is_alnum c"
  by (auto simp: in_range_def to_upper_def to_lower_def is_alnum_def)

lemma digit_class: "atom_match ic (AClass [CDigit]) c = is_digit c"
  by simp

lemma digit_comma_class: "atom_match ic (AClass [CDigit, CChar 44]) c = (is_digit c \<or> c = 44)"
  by (auto simp: canonicalize_punct)

lemma digit_alnum: "is_digit c \<Longrightarrow> is_alnum c"
  by (simp add: is_digit_def is_alnum_def)

lemma digit_not_space: "is_digit c \<Longrightarrow> \<not> is_space c"
  by (auto simp: is_digit_def is_space_def)

lemma lang_id10:
  assumes "w \<in> lang (Quant (AClass [CRange 65 90, CRange 48 57]) 10 (Some 10) True) True"
  shows "length w = 10" "\<forall>c \<in> set w. is_alnum c"
  using assms by (auto simp: alnum_class within_max_def simp del: atom_match.simps)

lemma id10_good:
  assumes "w \<in> lang (Quant (AClass [CRange 65 90, CRange 48 57]) 10 (Some 10) True) True"
  shows "already_clean w" "w \<noteq> []"
proof -
  from lang_id10 [OF assms] have l: "length w = 10" and a: "\<forall>c \<in> set w. is_alnum c" by auto
  from l show ne: "w \<noteq> []" by auto
  with a have "is_alnum (hd w)" "is_alnum (last w)" by auto
  with ne show "already_clean w"
    by (cases w) (auto simp: already_clean_def dest: alnum_not_space)
qed

lemma lang_currency:
  assumes "w \<in> lang (cat [Quant (AClass [CDigit, CChar 44]) 1 None True, Atom (AChar 46),
                           Quant (AClass [CDigit]) 2 (Some 2) True]) True"
  shows "\<exists>u d1 d2. w = u @ [46, d1, d2] \<and> u \<noteq> [] \<and> (\<forall>c \<in> set u. is_digit c \<or> c = 44)
           \<and> is_digit d1 \<and> is_digit d2"
proof -
  from assms obtain u y x where
    w: "w = u @ [y] @ x" and u: "\<forall>c \<in> set u. is_digit c \<or> c = 44" "1 \<le> length u"
    and y: "canonicalize True 46 = canonicalize True y"
    and x: "\<forall>c \<in> set x. is_digit c" "length x = 2"
    by (auto simp: digit_comma_class digit_class within_max_def simp del: atom_match.simps
             simp add: atom_match.simps(1))
  from y have "y = 46" by (simp add: canonicalize_punct)
  moreover from x(2) obtain d1 d2 where "x = [d1, d2]"
    by (cases x; cases "tl x"; cases "tl (tl x)") auto
  moreover from u(2) have "u \<noteq> []" by auto
  ultimately show ?thesis using w u(1) x(1) by auto
qed

lemma currency_good:
  assumes "w \<in> lang (cat [Quant (AClass [CDigit, CChar 44]) 1 None True, Atom (AChar 46),
                           Quant (AClass [CDigit]) 2 (Some 2) True]) True"
  shows "good_capture w"
proof -
  from lang_currency [OF assms] obtain u d1 d2 where
    w: "w = u @ [46, d1, d2]" "u \<noteq> []" "\<forall>c \<in> set u. is_digit c \<or> c = 44" "is_digit d2"
    by blast
  from w(2,3) have "is_digit (hd u) \<or> hd u = 44" by auto
  then have "\<not> is_space (hd u)" by (auto dest: digit_not_space simp: is_space_def)
  with w show ?thesis by (auto simp: good_capture_def dest: digit_alnum)
qed

lemma lang_year:
  assumes "w \<in> lang (cat [Quant (AClass [CDigit]) 4 (Some 4) True, Atom (AChar 45),
                           Quant (AClass [CDigit]) 2 (Some 4) True]) True"
  shows "\<exists>u x. w = u @ [45] @ x \<and> length u = 4 \<and> (\<forall>c \<in> set u. is_digit c)
           \<and> 2 \<le> length x \<and> length x \<le> 4 \<and> (\<forall>c \<in> set x. is_digit c)"
proof -
  from assms obtain u y x where
    w: "w = u @ [y] @ x" and u: "\<forall>c \<in> set u. is_digit c" "length u = 4"
    and y: "canonicalize True 45 = canonicalize True y"
    and x: "\<forall>c \<in> set x. is_digit c" "2 \<le> length x" "length x \<le> 4"
    by (auto simp: digit_class within_max_def simp del: atom_match.simps
             simp add: atom_match.simps(1))
  from y have "y = 45" by (simp add: canonicalize_punct)
  with w u x show ?thesis by blast
qed

lemma year_good:
  assumes "w \<in> lang (cat [Quant (AClass [CDigit]) 4 (Some 4) True, Atom (AChar 45),
                           Quant (AClass [CDigit]) 2 (Some 4) True]) True"
  shows "good_capture w"
proof -
  from lang_year [OF assms] obtain u x where
    w: "w = u @ [45] @ x" "length u = 4" "\<forall>c \<in> set u. is_digit c"
       "2 \<le> length x" "\<forall>c \<in> set x. is_digit c"
    by blast
  from w(2) have u: "u \<noteq> []" by auto
  from w(4) have x: "x \<noteq> []" by auto
  from u w(3) have "is_digit (hd u)" by auto
  moreover from x w(5) have "is_digit (last x)" by auto
  ultimately show ?thesis using w(1) u x
    by (auto simp: good_capture_def dest: digit_alnum digit_not_space)
qed

lemma id10_good_capture:
  assumes "w \<in> lang (Quant (AClass [CRange 65 90, CRange 48 57]) 10 (Some 10) True) True"
  shows "good_capture w"
proof -
  from lang_id10 [OF assms] have l: "length w = 10" and a: "\<forall>c \<in> set w. is_alnum c" by auto
  from l have ne: "w \<noteq> []" by auto
  with a have "is_alnum (hd w)" "is_alnum (last w)" by auto
  with ne show ?thesis by (auto simp: good_capture_def dest: alnum_not_space)
qed

lemma not_found_nonempty: "not_found \<noteq> []"
  by (simp add: not_found_def str_def)

lemma helper_with_capture:
  assumes good: "\<forall>w \<in> lang R True. good_capture w"
  shows "extract_helper text (cat (items @ [Group 1 R])) = helper_spec text (cat (items @ [Group 1 R]))"
proof (cases "regexp_exec (cat (items @ [Group 1 R])) True text")
  case None
  then show ?thesis by (simp add: extract_helper_def helper_spec_def)
next
  case (Some a)
  from exec_capture [OF Some] obtain w where w: "w \<in> lang R True" "a 1 = Some w" by auto
  with good have "good_capture w" by blast
  then have "w \<noteq> []" "clean w \<noteq> []"
    using clean_last_alnum(2) [of w] by (auto simp: good_capture_def)
  with Some w(2) show ?thesis by (simp add: extract_helper_def helper_spec_def)
qed

lemma helper_without_group:
  assumes "1 \<notin> groups r"
  shows "extract_helper text r = helper_spec text r"
proof -
  have "helper_spec text r = not_found"
    using assms by (auto simp: helper_spec_def dest: exec_no_group split: option.splits)
  with extract_no_group [OF assms] show ?thesis by simp
qed

lemma monetary_shape:
  "monetary lbl = cat ((lbl @ [gap]) @ [Group 1 (cat [Quant (AClass [CDigit, CChar 44]) 1 None True,
       Atom (AChar 46), Quant (AClass [CDigit]) 2 (Some 2) True])])"
  by (simp add: monetary_def currencyRegex_source_def)

lemma helper_monetary: "extract_helper text (monetary lbl) = helper_spec text (monetary lbl)"
  unfolding monetary_shape by (rule helper_with_capture) (simp add: currency_good)

lemma identifier_shape:
  "cat (lbl @ [ws, sep, ws, id10])
   = cat ((lbl @ [ws, sep, ws]) @ [Group 1 (Quant (AClass [CRange 65 90, CRange 48 57]) 10 (Some 10) True)])"
  by (simp add: id10_def)

lemma helper_identifier:
  "extract_helper text (cat (lbl @ [ws, sep, ws, id10])) = helper_spec text (cat (lbl @ [ws, sep, ws, id10]))"
  unfolding identifier_shape by (rule helper_with_capture) (simp add: id10_good_capture)

lemma year_shape:
  "re_assessmentYear
   = cat ((lbl_assessmentYear @ [ws, sep, ws]) @
       [Group 1 (cat [Quant (AClass [CDigit]) 4 (Some 4) True, Atom (AChar 45),
                      Quant (AClass [CDigit]) 2 (Some 4) True])])"
  by (simp add: re_assessmentYear_def)

lemma helper_year: "extract_helper text re_assessmentYear = helper_spec text re_assessmentYear"
  unfolding year_shape by (rule helper_with_capture) (simp add: year_good)

lemma name_groups:
  "1 \<notin> groups re_employerName" "1 \<notin> groups re_employeeName"
  by (simp_all add: re_employerName_def re_employeeName_def lbl_employerName_def
        lbl_employeeName_def ws_def gap_def the_opt_def)

lemma helper_names:
  "extract_helper text re_employerName = helper_spec text re_employerName"
  "extract_helper text re_employeeName = helper_spec text re_employeeName"
  by (rule helper_without_group, rule name_groups)+

lemma helper_rule: "(k, r) \<in> set rules \<Longrightarrow> extract_helper text r = helper_spec text r"
  unfolding rules_def
  by (auto simp: helper_monetary helper_year helper_names
        helper_identifier re_TAN_def re_employerPAN_def re_employeePAN_def)

lemma distinct_rules: "distinct (map fst rules)"
  by (simp add: rules_def)

lemma field_of_rule:
  assumes "(k, r) \<in> set rules"
  shows "map_of (extractDetails text) k = Some (extract_helper text r)"
proof -
  from distinct_rules assms have "map_of rules k = Some r" by (rule map_of_is_SomeI)
  then show ?thesis by (simp add: extractDetails_rules map_of_map)
qed

text \<open>
  C4. Per rule: when the rule matches, the captured value is trimmed of the whitespace
  around it, stripped of its leading run of characters outside letters and digits, and
  trimmed again (so ": ABCDE1234F" cleans to "ABCDE1234F"); when nothing matches, or the
  cleaned value is empty, the value of the field is "Not Found". The three steps are
  stated by what they remove: whitespace \<open>w1\<close>, \<open>w2\<close> around a part \<open>t1\<close> that neither
  starts nor ends with whitespace, then a run \<open>p\<close> of characters outside [a-zA-Z0-9] in
  front of a part \<open>t2\<close> that starts with a character of [a-zA-Z0-9], then whitespace
  \<open>w3\<close>, \<open>w4\<close> around the cleaned value. The helper tests the captured value before
  cleaning it; for the fifteen rules of the source the two tests agree, because no
  captured value cleans to the empty string.
\<close>

theorem per_rule_cleaning_and_sentinel:
  "(k, r) \<in> set rules \<Longrightarrow>
   map_of (extractDetails text) k =
     Some (case regexp_exec r True text of
             None \<Rightarrow> not_found
           | Some a \<Rightarrow>
               (case a 1 of
                  None \<Rightarrow> not_found
                | Some raw \<Rightarrow> if clean raw = [] then not_found else clean raw))
   \<and> (\<exists>t1 t2 w1 w2 p w3 w4.
         raw' = w1 @ t1 @ w2 \<and> (\<forall>c \<in> set w1. is_space c) \<and> (\<forall>c \<in> set w2. is_space c)
         \<and> (t1 = [] \<or> (\<not> is_space (hd t1) \<and> \<not> is_space (last t1)))
         \<and> t1 = p @ t2 \<and> (\<forall>c \<in> set p. \<not> is_alnum c) \<and> (t2 = [] \<or> is_alnum (hd t2))
         \<and> t2 = w3 @ clean raw' @ w4 \<and> (\<forall>c \<in> set w3. is_space c) \<and> (\<forall>c \<in> set w4. is_space c)
         \<and> (clean raw' = [] \<or> (\<not> is_space (hd (clean raw')) \<and> \<not> is_space (last (clean raw')))))
   \<and> clean (str '': ABCDE1234F'') = str ''ABCDE1234F''"
proof -
  assume kr: "(k, r) \<in> set rules"
  have "map_of (extractDetails text) k =
     Some (case regexp_exec r True text of
             None \<Rightarrow> not_found
           | Some a \<Rightarrow>
               (case a 1 of
                  None \<Rightarrow> not_found
                | Some raw \<Rightarrow> if clean raw = [] then not_found else clean raw))"
    using field_of_rule [OF kr, of "text"] helper_rule [OF kr, of "text"]
    by (simp add: helper_spec_def)
  then show ?thesis by (intro conjI clean_steps clean_example)
qed

theorem per_rule_cleaning_and_sentinel_witness:
  "(''grossSalary'', monetary lbl_grossSalary) \<in> set rules
   \<and> map_of (extractDetails (str ''Gross Salary ,1.00'')) ''grossSalary'' = Some (str ''1.00'')"
proof -
  have k: "(''grossSalary'', monetary lbl_grossSalary) \<in> set rules" by (simp add: rules_def)
  have "helper_spec (str ''Gross Salary ,1.00'') (monetary lbl_grossSalary) = str ''1.00''"
    by (simp add: helper_spec_def ev lbl_grossSalary_def)
  with per_rule_cleaning_and_sentinel [OF k, THEN conjunct1, of "str ''Gross Salary ,1.00''"] k
  show ?thesis by (simp add: helper_spec_def)
qed

section \<open>The identifier rules\<close>

lemma lang_cat_append:
  "lang (cat (xs @ ys)) ic = {u @ v | u v. u \<in> lang (cat xs) ic \<and> v \<in> lang (cat ys) ic}"
proof (induction xs rule: cat.induct)
  case 1
  show ?case by simp
next
  case (2 r)
  show ?case by (cases ys) simp_all
next
  case (3 r v va)
  let ?A = "lang r ic" and ?B = "lang (cat (v # va)) ic" and ?C = "lang (cat ys) ic"
  have "lang (cat ((r # v # va) @ ys)) ic
      = {u @ x | u x. u \<in> ?A \<and> x \<in> lang (cat ((v # va) @ ys)) ic}"
    by simp
  also have "\<dots> = {u @ x | u x. u \<in> ?A \<and> x \<in> {a @ b | a b. a \<in> ?B \<and> b \<in> ?C}}"
    by (simp only: "3.IH")
  also have "\<dots> = {w @ b | w b. w \<in> {u @ a | u a. u \<in> ?A \<and> a \<in> ?B} \<and> b \<in> ?C}"
  proof (rule set_eqI, rule iffI)
    fix x
    assume "x \<in> {u @ x | u x. u \<in> ?A \<and> x \<in> {a @ b | a b. a \<in> ?B \<and> b \<in> ?C}}"
    then obtain u a b where "x = u @ (a @ b)" "u \<in> ?A" "a \<in> ?B" "b \<in> ?C" by blast
    then have "x = (u @ a) @ b \<and> u \<in> ?A \<and> a \<in> ?B \<and> b \<in> ?C" by simp
    then show "x \<in> {w @ b | w b. w \<in> {u @ a | u a. u \<in> ?A \<and> a \<in> ?B} \<and> b \<in> ?C}" by blast
  next
    fix x
    assume "x \<in> {w @ b | w b. w \<in> {u @ a | u a. u \<in> ?A \<and> a \<in> ?B} \<and> b \<in> ?C}"
    then obtain u a b where "x = (u @ a) @ b" "u \<in> ?A" "a \<in> ?B" "b \<in> ?C" by blast
    then have "x = u @ (a @ b) \<and> u \<in> ?A \<and> a \<in> ?B \<and> b \<in> ?C" by simp
    then show "x \<in> {u @ x | u x. u \<in> ?A \<and> x \<in> {a @ b | a b. a \<in> ?B \<and> b \<in> ?C}}" by blast
  qed
  also have "{u @ a | u a. u \<in> ?A \<and> a \<in> ?B} = lang (cat (r # v # va)) ic" by simp
  finally show ?case .
qed

lemma lang_separator:
  assumes "w \<in> lang (cat [ws, sep, ws]) True"
  shows "\<exists>s1 p s2. w = s1 @ p @ s2 \<and> (\<forall>c \<in> set s1. is_space c)
           \<and> (p = [] \<or> p = [58] \<or> p = [45]) \<and> (\<forall>c \<in> set s2. is_space c)"
proof -
  from assms obtain s1 p s2 where
    w: "w = s1 @ p @ s2" and s: "\<forall>c \<in> set s1. is_space c" "\<forall>c \<in> set s2. is_space c"
    and p: "\<forall>c \<in> set p. c = 58 \<or> c = 45" "length p \<le> 1"
    by (auto simp: ws_def sep_def within_max_def canonicalize_punct)
  from p have "p = [] \<or> p = [58] \<or> p = [45]" by (cases p) auto
  with w s show ?thesis by blast
qed

lemma identifier_capture_value:
  assumes v: "extract_helper text (cat (lbl @ [ws, sep, ws, id10])) = v" and nf: "v \<noteq> not_found"
  shows "length v = 10 \<and> (\<forall>c \<in> set v. is_alnum c)
         \<and> (\<exists>pre l s1 p s2 post. text = pre @ l @ s1 @ p @ s2 @ v @ post
               \<and> l \<in> lang (cat lbl) True \<and> (\<forall>c \<in> set s1. is_space c)
               \<and> (p = [] \<or> p = [58] \<or> p = [45]) \<and> (\<forall>c \<in> set s2. is_space c))"
proof -
  let ?R = "Quant (AClass [CRange 65 90, CRange 48 57]) 10 (Some 10) True"
  let ?r = "cat ((lbl @ [ws, sep, ws]) @ [Group 1 ?R])"
  from v have v': "extract_helper text ?r = v" by (simp add: id10_def)
  with nf obtain a where a: "regexp_exec ?r True text = Some a"
    by (cases "regexp_exec ?r True text") (auto simp: extract_helper_def)
  from exec_capture [OF a] obtain pre l' w post where
    t: "text = pre @ l' @ w @ post" "l' \<in> lang (cat (lbl @ [ws, sep, ws])) True"
       "w \<in> lang ?R True" "a 1 = Some w"
    by auto
  from id10_good [OF t(3)] have "clean w = w" "w \<noteq> []" by (auto intro: clean_fixed)
  with a t(4) v' have vw: "v = w" by (simp add: extract_helper_def)
  from t(2) obtain l x where
    l: "l' = l @ x" "l \<in> lang (cat lbl) True" "x \<in> lang (cat [ws, sep, ws]) True"
    unfolding lang_cat_append by blast
  from lang_separator [OF l(3)] obtain s1 p s2 where
    x: "x = s1 @ p @ s2" "\<forall>c \<in> set s1. is_space c" "p = [] \<or> p = [58] \<or> p = [45]"
       "\<forall>c \<in> set s2. is_space c"
    by blast
  from t(1) l(1) x(1) vw have "text = pre @ l @ s1 @ p @ s2 @ v @ post" by simp
  with l(2) x(2,3,4) have
    "\<exists>pre l s1 p s2 post. text = pre @ l @ s1 @ p @ s2 @ v @ post
        \<and> l \<in> lang (cat lbl) True \<and> (\<forall>c \<in> set s1. is_space c)
        \<and> (p = [] \<or> p = [58] \<or> p = [45]) \<and> (\<forall>c \<in> set s2. is_space c)"
    by blast
  with lang_id10 [OF t(3)] vw show ?thesis by simp
qed

lemma identifier_fields:
  assumes "(k, lbl) \<in> set identifier_labels"
  shows "map_of (extractDetails text) k = Some (extract_helper text (cat (lbl @ [ws, sep, ws, id10])))"
proof -
  from assms have "(k, cat (lbl @ [ws, sep, ws, id10])) \<in> set rules"
    unfolding identifier_labels_def rules_def re_TAN_def re_employerPAN_def re_employeePAN_def
    by auto
  then show ?thesis by (rule field_of_rule)
qed

text \<open>
  C6. For TAN, employerPAN and employeePAN, a value other than the sentinel is a token
  of ten characters of \<open>[A-Za-z0-9]\<close> that stands in the text right after the label,
  optional whitespace, an optional colon or dash, and optional whitespace.
\<close>

theorem identifier_values:
  "(k, lbl) \<in> set identifier_labels \<Longrightarrow> map_of (extractDetails text) k = Some v \<Longrightarrow>
   v \<noteq> not_found \<Longrightarrow>
   length v = 10 \<and> (\<forall>c \<in> set v. is_alnum c)
   \<and> (\<exists>pre l s1 p s2 post. text = pre @ l @ s1 @ p @ s2 @ v @ post
         \<and> l \<in> lang (cat lbl) True \<and> (\<forall>c \<in> set s1. is_space c)
         \<and> (p = [] \<or> p = [58] \<or> p = [45]) \<and> (\<forall>c \<in> set s2. is_space c))"
  using identifier_fields [of k lbl "text"] identifier_capture_value [of "text" lbl v] by simp

theorem identifier_values_witness:
  "map_of (extractDetails (str ''PAN of the Employee - abcde1234fgh'')) ''employeePAN''
     = Some (str ''abcde1234f'')
   \<and> length (str ''abcde1234f'') = 10
   \<and> (\<exists>pre l s1 p s2 post.
         str ''PAN of the Employee - abcde1234fgh'' = pre @ l @ s1 @ p @ s2 @ str ''abcde1234f'' @ post
         \<and> l \<in> lang (cat lbl_employeePAN) True \<and> (p = [] \<or> p = [58] \<or> p = [45]))"
proof -
  let ?t = "str ''PAN of the Employee - abcde1234fgh''"
  have k: "(''employeePAN'', lbl_employeePAN) \<in> set identifier_labels"
    by (simp add: identifier_labels_def)
  have v: "map_of (extractDetails ?t) ''employeePAN'' = Some (str ''abcde1234f'')"
    unfolding identifier_fields [OF k]
    by (simp add: ev lbl_employeePAN_def)
  have n: "str ''abcde1234f'' \<noteq> not_found" by (simp add: str_def not_found_def)
  from identifier_values [OF k v n] v show ?thesis by blast
qed

section \<open>Texts without the labels\<close>

lemma rep_succeeds:
  assumes "\<And>s'. k s' \<noteq> None \<Longrightarrow> k' s' \<noteq> None"
  shows "rep g p mn mx s k \<noteq> None \<Longrightarrow> rep g p mn mx s k' \<noteq> None"
proof (induction s arbitrary: mn mx)
  case Nil
  then show ?case using assms [of "[]"] by (auto split: if_splits)
next
  case (Cons x xs)
  note ih = Cons.IH
  show ?case
  proof (cases "mx = Some 0 \<or> \<not> p x")
    case True
    with Cons.prems assms [of "x # xs"] show ?thesis
      by (auto split: if_splits option.splits)
  next
    case False
    then have nz: "mx \<noteq> Some 0" and px: "p x" by auto
    show ?thesis
    proof (cases "mn = 0")
      case False
      with nz px Cons.prems ih [of "mn - 1" "dec_max mx"] show ?thesis by simp
    next
      case True
      show ?thesis
      proof (cases "rep g p 0 (dec_max mx) xs k")
        case None
        with True nz px Cons.prems have "k (x # xs) \<noteq> None"
          by (cases g) (auto split: option.splits)
        then have "k' (x # xs) \<noteq> None" by (rule assms)
        with True nz px show ?thesis by (cases g) (auto split: option.splits)
      next
        case (Some y)
        then have "rep g p 0 (dec_max mx) xs k' \<noteq> None" using ih [of 0 "dec_max mx"] by simp
        with True nz px show ?thesis by (cases g) (auto split: option.splits)
      qed
    qed
  qed
qed

lemma m_succeeds:
  "(\<And>s' c1 c2. k s' c1 \<noteq> None \<Longrightarrow> k' s' c2 \<noteq> None) \<Longrightarrow>
   m r ic s c k \<noteq> None \<Longrightarrow> m r ic s c' k' \<noteq> None"
proof (induction r arbitrary: s c c' k k')
  case Empty
  then show ?case by simp
next
  case (Atom a)
  from Atom.prems(2) obtain x xs where "s = x # xs" "atom_match ic a x" "k xs c \<noteq> None"
    by (cases s) (auto split: if_splits)
  with Atom.prems(1) [of xs c c'] show ?case by simp
next
  case (Quant a mn mx g)
  from Quant.prems(2) have "rep g (atom_match ic a) mn mx s (\<lambda>s'. k s' c) \<noteq> None" by simp
  then have "rep g (atom_match ic a) mn mx s (\<lambda>s'. k' s' c') \<noteq> None"
    by (rule rep_succeeds [rotated]) (rule Quant.prems(1))
  then show ?case by simp
next
  case (Seq r1 r2)
  have "m r1 ic s c' (\<lambda>s' c'. m r2 ic s' c' k') \<noteq> None"
  proof (rule Seq.IH(1))
    show "m r1 ic s c (\<lambda>s' c'. m r2 ic s' c' k) \<noteq> None" using Seq.prems(2) by simp
    show "m r2 ic s' c2 k' \<noteq> None" if "m r2 ic s' c1 k \<noteq> None" for s' c1 c2
      using Seq.prems(1) that by (rule Seq.IH(2))
  qed
  then show ?case by simp
next
  case (Alt r1 r2)
  show ?case
  proof (cases "m r1 ic s c k")
    case None
    with Alt.prems(2) have "m r2 ic s c k \<noteq> None" by simp
    with Alt.prems(1) have "m r2 ic s c' k' \<noteq> None" by (rule Alt.IH(2))
    then show ?thesis by (auto split: option.splits)
  next
    case (Some y)
    then have "m r1 ic s c k \<noteq> None" by simp
    with Alt.prems(1) have "m r1 ic s c' k' \<noteq> None" by (rule Alt.IH(1))
    then show ?thesis by (auto split: option.splits)
  qed
next
  case (Opt r)
  let ?g = "\<lambda>k s' c'. if length s' = length s then None else k s' (c' :: captures)"
  show ?case
  proof (cases "m r ic s c (?g k)")
    case None
    with Opt.prems(2) have "k s c \<noteq> None" by simp
    then have "k' s c' \<noteq> None" by (rule Opt.prems(1))
    then show ?thesis by (auto split: option.splits)
  next
    case (Some y)
    have "m r ic s c' (?g k') \<noteq> None"
    proof (rule Opt.IH)
      show "m r ic s c (?g k) \<noteq> None" using Some by simp
      show "?g k' s' c2 \<noteq> None" if "?g k s' c1 \<noteq> None" for s' c1 c2
        using that Opt.prems(1) [of s' c1 c2] by (auto split: if_splits)
    qed
    then show ?thesis by (auto split: option.splits)
  qed
next
  case (Group n r)
  let ?g = "\<lambda>k s' c'. k s' (c'(n := Some (take (length s - length s') s)))"
  have "m r ic s c' (?g k') \<noteq> None"
  proof (rule Group.IH)
    show "m r ic s c (?g k) \<noteq> None" using Group.prems(2) by simp
    show "?g k' s' c2 \<noteq> None" if "?g k s' c1 \<noteq> None" for s' c1 c2
      using that by (rule Group.prems(1))
  qed
  then show ?case by simp
qed

lemma match_at_prefix:
  assumes "match_at (cat (xs @ ys)) ic s \<noteq> None"
  shows "match_at (cat xs) ic s \<noteq> None"
proof -
  from assms have
    "m (cat xs) ic s (\<lambda>_. None) (\<lambda>s' c'. m (cat ys) ic s' c' (accept s)) \<noteq> None"
    by (simp add: match_at_def m_cat_append)
  then have "m (cat xs) ic s (\<lambda>_. None) (accept s) \<noteq> None"
    by (rule m_succeeds [rotated]) (simp add: accept_def)
  then show ?thesis by (simp add: match_at_def)
qed

lemma exec_prefix:
  "regexp_exec (cat (xs @ ys)) ic s \<noteq> None \<Longrightarrow> regexp_exec (cat xs) ic s \<noteq> None"
proof (induction s)
  case Nil
  then have "match_at (cat (xs @ ys)) ic [] \<noteq> None" by simp
  then have "match_at (cat xs) ic [] \<noteq> None" by (rule match_at_prefix)
  then show ?case by simp
next
  case (Cons x s)
  show ?case
  proof (cases "match_at (cat (xs @ ys)) ic (x # s)")
    case None
    with Cons show ?thesis by (auto split: option.splits)
  next
    case (Some a)
    then have "match_at (cat (xs @ ys)) ic (x # s) \<noteq> None" by simp
    then have "match_at (cat xs) ic (x # s) \<noteq> None" by (rule match_at_prefix)
    then show ?thesis by (auto split: option.splits)
  qed
qed

lemma absent_label:
  assumes "\<not> label_occurs lbl text"
  shows "extract_helper text (cat (lbl @ rest)) = not_found"
proof -
  from assms have "regexp_exec (cat lbl) True text = None" by (simp add: label_occurs_def)
  with exec_prefix [of lbl rest True "text"]
  have "regexp_exec (cat (lbl @ rest)) True text = None"
    by (cases "regexp_exec (cat (lbl @ rest)) True text") auto
  then show ?thesis by (simp add: extract_helper_def)
qed

text \<open>
  C7. If the text has no occurrence of the label phrase of any rule (the empty text is
  such a text), every field of the result is "Not Found". The function has no error
  value, so nothing is raised.
\<close>

theorem sentinel_correctness:
  "\<forall>(k, lbl) \<in> set labels. \<not> label_occurs lbl text \<Longrightarrow>
   \<forall>(k, v) \<in> set (extractDetails text). v = not_found"
proof -
  assume "\<forall>(k, lbl) \<in> set labels. \<not> label_occurs lbl text"
  then have n:
    "\<not> label_occurs lbl_TAN text" "\<not> label_occurs lbl_employerPAN text"
    "\<not> label_occurs lbl_employeePAN text" "\<not> label_occurs lbl_assessmentYear text"
    "\<not> label_occurs lbl_grossSalary text" "\<not> label_occurs lbl_standardDeduction text"
    "\<not> label_occurs lbl_professionalTax text" "\<not> label_occurs lbl_incomeChargeable text"
    "\<not> label_occurs lbl_totalDeductionsVIA text" "\<not> label_occurs lbl_totalTaxableIncome text"
    "\<not> label_occurs lbl_taxOnTotalIncome text" "\<not> label_occurs lbl_cess text"
    "\<not> label_occurs lbl_totalTDS text"
    by (simp_all add: labels_def identifier_labels_def monetary_labels_def)
  have f:
    "extract_helper text re_TAN = not_found" "extract_helper text re_employerPAN = not_found"
    "extract_helper text re_employeePAN = not_found"
    "extract_helper text re_assessmentYear = not_found"
    unfolding re_TAN_def re_employerPAN_def re_employeePAN_def re_assessmentYear_def
    by (rule absent_label, rule n)+
  have g:
    "extract_helper text (monetary lbl_grossSalary) = not_found"
    "extract_helper text (monetary lbl_standardDeduction) = not_found"
    "extract_helper text (monetary lbl_professionalTax) = not_found"
    "extract_helper text (monetary lbl_incomeChargeable) = not_found"
    "extract_helper text (monetary lbl_totalDeductionsVIA) = not_found"
    "extract_helper text (monetary lbl_totalTaxableIncome) = not_found"
    "extract_helper text (monetary lbl_taxOnTotalIncome) = not_found"
    "extract_helper text (monetary lbl_cess) = not_found"
    "extract_helper text (monetary lbl_totalTDS) = not_found"
    unfolding monetary_def by (rule absent_label, rule n)+
  show ?thesis
    unfolding extractDetails_def
    by (simp only: f g extract_employerName extract_employeeName) simp
qed

theorem sentinel_correctness_witness:
  "list_all (\<lambda>(k, lbl). \<not> label_occurs lbl []) labels
   \<and> list_all (\<lambda>(k, v). v = not_found) (extractDetails [])
   \<and> list_all (\<lambda>(k, lbl). \<not> label_occurs lbl (str ''hello, world 12.50'')) labels
   \<and> list_all (\<lambda>(k, v). v = not_found) (extractDetails (str ''hello, world 12.50''))"
proof -
  have 1: "\<forall>(k, lbl) \<in> set labels. \<not> label_occurs lbl []"
    unfolding labels_def identifier_labels_def monetary_labels_def
    by (simp add: label_occurs_def ev lbl_employerName_def lbl_employeeName_def
          lbl_assessmentYear_def lbl_TAN_def lbl_employerPAN_def lbl_employeePAN_def
          lbl_grossSalary_def lbl_standardDeduction_def lbl_professionalTax_def
          lbl_incomeChargeable_def lbl_totalDeductionsVIA_def lbl_totalTaxableIncome_def
          lbl_taxOnTotalIncome_def lbl_cess_def lbl_totalTDS_def)
  have 2: "\<forall>(k, lbl) \<in> set labels. \<not> label_occurs lbl (str ''hello, world 12.50'')"
    unfolding labels_def identifier_labels_def monetary_labels_def
    by (simp add: label_occurs_def ev lbl_employerName_def lbl_employeeName_def
          lbl_assessmentYear_def lbl_TAN_def lbl_employerPAN_def lbl_employeePAN_def
          lbl_grossSalary_def lbl_standardDeduction_def lbl_professionalTax_def
          lbl_incomeChargeable_def lbl_totalDeductionsVIA_def lbl_totalTaxableIncome_def
          lbl_taxOnTotalIncome_def lbl_cess_def lbl_totalTDS_def)
  from 1 2 sentinel_correctness [OF 1] sentinel_correctness [OF 2]
  show ?thesis by (simp only: list_all_iff) 
qed

section \<open>The monetary rules\<close>

lemma rep_map_option:
  "rep g p mn mx s (\<lambda>s'. map_option F (k s')) = map_option F (rep g p mn mx s k)"
proof (induction s arbitrary: mn mx g)
  case Nil
  show ?case by simp
next
  case (Cons x xs)
  show ?case
    by (simp add: Cons.IH split: option.splits)
qed

lemma if_map_option:
  "(if b then None else map_option F x) = map_option F (if b then None else x)"
  by simp

lemma m_map_option:
  "m r ic s c (\<lambda>s' c'. map_option F (k s' c')) = map_option F (m r ic s c k)"
proof (induction r arbitrary: s c k)
  case Empty
  show ?case by simp
next
  case (Atom a)
  show ?case by (cases s) simp_all
next
  case (Quant a mn mx g)
  show ?case by (simp add: rep_map_option)
next
  case (Seq r1 r2)
  show ?case by (simp add: Seq.IH)
next
  case (Alt r1 r2)
  show ?case by (cases "m r1 ic s c k") (simp_all add: Alt.IH)
next
  case (Opt r)
  show ?case
    by (cases "m r ic s c (\<lambda>s' c'. if length s' = length s then None else k s' c')")
       (simp_all add: if_map_option Opt.IH del: if_map_option [symmetric])
next
  case (Group n r)
  show ?case by (simp add: Group.IH)
qed

lemma m_total_cont:
  "m r ic s c (\<lambda>s' c'. Some (f s' c')) = map_option (\<lambda>(s', c'). f s' c') (ends r ic s c)"
proof -
  have "m r ic s c (\<lambda>s' c'. map_option (\<lambda>(s', c'). f s' c') (Some (s', c')))
        = map_option (\<lambda>(s', c'). f s' c') (m r ic s c (\<lambda>s' c'. Some (s', c')))"
    by (rule m_map_option)
  then show ?thesis by (simp add: ends_def)
qed

lemma match_at_ends:
  "match_at r ic s
   = map_option (\<lambda>(s', c'). c'(0 := Some (take (length s - length s') s))) (ends r ic s (\<lambda>_. None))"
  unfolding match_at_def accept_def [abs_def] by (rule m_total_cont)

lemma ends_match_at_None: "match_at r ic s = None \<longleftrightarrow> ends r ic s (\<lambda>_. None) = None"
  by (simp add: match_at_ends)




























section \<open>The full-match scenario\<close>

lemma exec_skip:
  "no_match_in r ic pre rest \<Longrightarrow> regexp_exec r ic (pre @ rest) = regexp_exec r ic rest"
  by (induction pre) simp_all

lemma rep_max0: "rep g p mn (Some 0) s k = k s"
  by (cases s) simp_all

lemma TAN_in_full_match:
  "extract_helper (full_match_text @ post) re_TAN = str ''ABCDE1234F''"
  by (simp add: full_match_text_def ev re_TAN_def lbl_TAN_def rep_max0)

lemma field_TAN: "map_of (extractDetails text) ''TAN'' = Some (extract_helper text re_TAN)"
  by (rule field_of_rule) (simp add: rules_def)

lemma field_employerName:
  "map_of (extractDetails text) ''employerName'' = Some not_found"
  using field_of_rule [of "''employerName''" re_employerName "text"]
  by (simp add: rules_def extract_employerName)

text \<open>
  C2, as amended. For any text that contains "Name of the Employer: Acme Corp TAN:
  ABCDE1234F" and in which the TAN rule has no match that starts before that substring,
  the field TAN is "ABCDE1234F". Nothing is said here of employerName.
\<close>

theorem full_match_TAN:
  "no_match_in re_TAN True pre (full_match_text @ post) \<Longrightarrow>
   map_of (extractDetails (pre @ full_match_text @ post)) ''TAN'' = Some (str ''ABCDE1234F'')"
proof -
  assume "no_match_in re_TAN True pre (full_match_text @ post)"
  then have "regexp_exec re_TAN True (pre @ full_match_text @ post)
             = regexp_exec re_TAN True (full_match_text @ post)"
    by (rule exec_skip)
  then have "extract_helper (pre @ full_match_text @ post) re_TAN
             = extract_helper (full_match_text @ post) re_TAN"
    by (simp add: extract_helper_def)
  then show ?thesis by (simp add: field_TAN TAN_in_full_match)
qed

theorem full_match_TAN_witness:
  "no_match_in re_TAN True (str ''PART A. '') (full_match_text @ str '' PAN of the Deductor: AAACA1111A'')
   \<and> map_of (extractDetails (str ''PART A. '' @ full_match_text @ str '' PAN of the Deductor: AAACA1111A''))
        ''TAN'' = Some (str ''ABCDE1234F'')"
proof -
  have h: "no_match_in re_TAN True (str ''PART A. '')
             (full_match_text @ str '' PAN of the Deductor: AAACA1111A'')"
    by (simp add: full_match_text_def ev re_TAN_def lbl_TAN_def)
  from h full_match_TAN [OF h] show ?thesis by (rule conjI)
qed

text \<open>
  The claim as it was stated fails on a text that contains the substring after an
  earlier TAN: the first match wins, so TAN is the earlier identifier; and employerName
  is "Not Found", as it is on every text.
\<close>

theorem full_match_counterexample:
  "map_of (extractDetails (str ''TAN: ZZZZZ9999Z '' @ full_match_text)) ''TAN''
     = Some (str ''ZZZZZ9999Z'')
   \<and> str ''ZZZZZ9999Z'' \<noteq> str ''ABCDE1234F''
   \<and> map_of (extractDetails (str ''TAN: ZZZZZ9999Z '' @ full_match_text)) ''employerName''
     = Some (str ''Not Found'')
   \<and> str ''Not Found'' \<noteq> str ''Acme Corp''"
proof -
  have "extract_helper (str ''TAN: ZZZZZ9999Z '' @ full_match_text) re_TAN = str ''ZZZZZ9999Z''"
    by (simp add: full_match_text_def ev re_TAN_def lbl_TAN_def)
  then have 1: "map_of (extractDetails (str ''TAN: ZZZZZ9999Z '' @ full_match_text)) ''TAN''
     = Some (str ''ZZZZZ9999Z'')"
    by (simp add: field_TAN)
  have 2: "str ''ZZZZZ9999Z'' \<noteq> str ''ABCDE1234F''" by (simp add: str_def)
  have 3: "map_of (extractDetails (str ''TAN: ZZZZZ9999Z '' @ full_match_text)) ''employerName''
     = Some (str ''Not Found'')"
    by (simp add: field_employerName not_found_def)
  have 4: "str ''Not Found'' \<noteq> str ''Acme Corp''" by (simp add: str_def)
  from 1 2 3 4 show ?thesis by (intro conjI)
qed

section \<open>Variants of a label\<close>






lemma employerName_rule_variants:
  "whole_match (regexp_exec re_employerName True (str ''Name of Employer: Acme Corp TAN: ABCDE1234F''))
   = Some (str ''Name of Employer: Acme Corp TAN'')"
  "whole_match
     (regexp_exec re_employerName True (str ''Name of the Employer: Acme Corp TAN: ABCDE1234F''))
   = Some (str ''Name of the Employer: Acme Corp TAN'')"
  by (simp_all add: whole_match_def ev re_employerName_def lbl_employerName_def)


text \<open>The label of a rule consumes either wording and goes on with what follows it.\<close>

lemma label_employer:
  "m (cat lbl_employerName) True (str ''Name of Employer'' @ rest) c k = k rest c"
  "m (cat lbl_employerName) True (str ''Name of the Employer'' @ rest) c k = k rest c"
  by (cases "k rest c"; simp add: ev lbl_employerName_def)+

lemma label_employee:
  "m (cat lbl_employeeName) True (str ''Name of Employee'' @ rest) c k = k rest c"
  "m (cat lbl_employeeName) True (str ''Name of the Employee'' @ rest) c k = k rest c"
  by (cases "k rest c"; simp add: ev lbl_employeeName_def)+




text \<open>A rule on a text that starts with a wording of its label: the value of the match
  that starts there does not depend on the wording, and no match starts inside the
  wording after its first character.\<close>

lemma exec_at_start:
  assumes "no_match_in r ic xs rest"
  shows "regexp_exec r ic (x # xs @ rest)
         = (case match_at r ic (x # xs @ rest) of Some a \<Rightarrow> Some a
            | None \<Rightarrow> regexp_exec r ic rest)"
  using exec_skip [OF assms] by (cases "match_at r ic (x # xs @ rest)") simp_all

lemma group1_accept:
  "group1 (m r ic s c (accept S))
   = (case ends r ic s c of None \<Rightarrow> None | Some (s', c') \<Rightarrow> c' 1)"
proof -
  have "m r ic s c (accept S)
        = map_option (\<lambda>(s', c'). c'(0 := Some (take (length S - length s') S))) (ends r ic s c)"
    unfolding accept_def [abs_def] by (rule m_total_cont)
  then show ?thesis by (cases "ends r ic s c") (auto simp: group1_def)
qed

lemma none_accept: "m r ic s c (accept S) = None \<longleftrightarrow> ends r ic s c = None"
proof -
  have "m r ic s c (accept S)
        = map_option (\<lambda>(s', c'). c'(0 := Some (take (length S - length s') S))) (ends r ic s c)"
    unfolding accept_def [abs_def] by (rule m_total_cont)
  then show ?thesis by simp
qed

lemma rule_at_label:
  fixes W :: jsstring
  assumes lbl: "m (cat lbl) True (W @ rest) (\<lambda>_. None)
                  (\<lambda>s c. m (cat tail) True s c (accept (W @ rest)))
                = m (cat tail) True rest (\<lambda>_. None) (accept (W @ rest))"
    and W: "W = x # xs" and nm: "no_match_in (cat (lbl @ tail)) True xs rest"
  shows "group1 (regexp_exec (cat (lbl @ tail)) True (W @ rest))
         = (case ends (cat tail) True rest (\<lambda>_. None) of
              Some (s', c') \<Rightarrow> c' 1
            | None \<Rightarrow> group1 (regexp_exec (cat (lbl @ tail)) True rest))"
    and "regexp_exec (cat (lbl @ tail)) True (W @ rest) = None
         \<longleftrightarrow> ends (cat tail) True rest (\<lambda>_. None) = None
             \<and> regexp_exec (cat (lbl @ tail)) True rest = None"
proof -
  let ?r = "cat (lbl @ tail)"
  have ma: "match_at ?r True (W @ rest) = m (cat tail) True rest (\<lambda>_. None) (accept (W @ rest))"
    by (simp add: match_at_def m_cat_append lbl)
  have ex: "regexp_exec ?r True (W @ rest)
            = (case match_at ?r True (W @ rest) of Some a \<Rightarrow> Some a
               | None \<Rightarrow> regexp_exec ?r True rest)"
    using exec_at_start [OF nm, of x] W by simp
  show "group1 (regexp_exec ?r True (W @ rest))
         = (case ends (cat tail) True rest (\<lambda>_. None) of
              Some (s', c') \<Rightarrow> c' 1
            | None \<Rightarrow> group1 (regexp_exec ?r True rest))"
  proof (cases "ends (cat tail) True rest (\<lambda>_. None)")
    case None
    then have "match_at ?r True (W @ rest) = None" by (simp add: ma none_accept)
    with None show ?thesis by (simp add: ex)
  next
    case (Some e)
    then obtain a where a: "match_at ?r True (W @ rest) = Some a"
      using none_accept [of "cat tail" True rest "\<lambda>_. None" "W @ rest"] by (auto simp: ma)
    then have "group1 (regexp_exec ?r True (W @ rest)) = group1 (match_at ?r True (W @ rest))"
      by (simp add: ex)
    also have "\<dots> = (case ends (cat tail) True rest (\<lambda>_. None) of None \<Rightarrow> None
                      | Some (s', c') \<Rightarrow> c' 1)"
      unfolding ma by (rule group1_accept)
    finally show ?thesis using Some by (cases e) simp
  qed
  show "regexp_exec ?r True (W @ rest) = None
         \<longleftrightarrow> ends (cat tail) True rest (\<lambda>_. None) = None \<and> regexp_exec ?r True rest = None"
    unfolding ex ma using none_accept [of "cat tail" True rest "\<lambda>_. None" "W @ rest"]
    by (cases "m (cat tail) True rest (\<lambda>_. None) (accept (W @ rest))") auto
qed




lemma no_match_employerName:
  "no_match_in re_employerName True (str ''ame of Employer'') rest"
  "no_match_in re_employerName True (str ''ame of the Employer'') rest"
  by (simp_all add: ev re_employerName_def lbl_employerName_def)

lemma no_match_employeeName:
  "no_match_in re_employeeName True (str ''ame of Employee'') rest"
  "no_match_in re_employeeName True (str ''ame of the Employee'') rest"
  by (simp_all add: ev re_employeeName_def lbl_employeeName_def)



lemma employerName_wordings:
  "regexp_exec re_employerName True (str ''Name of Employer'' @ rest) = None
   \<longleftrightarrow> regexp_exec re_employerName True (str ''Name of the Employer'' @ rest) = None"
proof -
  have 1: "str ''Name of Employer'' = 78 # str ''ame of Employer''"
    and 2: "str ''Name of the Employer'' = 78 # str ''ame of the Employer''"
    by (simp_all add: str_def)
  show ?thesis
    using no_match_employerName [of rest]
    by (simp only: rule_at_label(2) [OF label_employer(1) 1]
          rule_at_label(2) [OF label_employer(2) 2] re_employerName_def)
qed

lemma employeeName_wordings:
  "regexp_exec re_employeeName True (str ''Name of Employee'' @ rest) = None
   \<longleftrightarrow> regexp_exec re_employeeName True (str ''Name of the Employee'' @ rest) = None"
proof -
  have 1: "str ''Name of Employee'' = 78 # str ''ame of Employee''"
    and 2: "str ''Name of the Employee'' = 78 # str ''ame of the Employee''"
    by (simp_all add: str_def)
  show ?thesis
    using no_match_employeeName [of rest]
    by (simp only: rule_at_label(2) [OF label_employee(1) 1]
          rule_at_label(2) [OF label_employee(2) 2] re_employeeName_def)
qed

lemma name_ends:
  "ends re_employerName True (str ''Name of Employer'' @ rest) c
   = ends re_employerName True (str ''Name of the Employer'' @ rest) c"
  "ends re_employeeName True (str ''Name of Employee'' @ rest) c
   = ends re_employeeName True (str ''Name of the Employee'' @ rest) c"
  by (simp_all only: ends_def re_employerName_def re_employeeName_def m_cat_append
        label_employer label_employee)


































text \<open>For professionalTax the two wordings are different words, and a match that starts
  inside one of them can exist under one wording only: here the final t of
  "employment" starts a later match.\<close>

lemma professionalTax_later_match:
  "extract_helper (str ''Tax on employment'' @ str ''ax'' @ [10] @ str '' on employment u/s 16(iii) 5.00'')
     (monetary lbl_professionalTax) = str ''5.00''"
  "extract_helper (str ''Professional Tax'' @ str ''ax'' @ [10] @ str '' on employment u/s 16(iii) 5.00'')
     (monetary lbl_professionalTax) = not_found"
  by (simp_all add: ev lbl_professionalTax_def)



end
